theory Spec2Isabelle
  imports Complex_Main
begin

section \<open>The half-edge diagram of \<open>halfedgediagram.hpp\<close>\<close>

text \<open>
  \<open>HEDIGraph\<close> wraps a \<open>boost::adjacency_list\<close> and a vector of face payloads.
  The embedding keeps what the class itself reads and writes:
  \<^item> a vertex descriptor and a face index are natural numbers;
  \<^item> an edge descriptor carries its source and target, as the descriptor of the graph
    library does, and an identity (the address of its property object in the library);
  \<^item> the edge payload has the four fields the class uses: \<open>twin\<close>, \<open>next\<close>, \<open>face\<close>
    and \<open>k\<close>; the face payload has \<open>edge\<close> and \<open>idx\<close>;
  \<^item> the graph is the face table, the vertex list, the finite map from live edge
    descriptors to their payload and the identity the next new edge receives.
  The payload classes are template parameters: a default-constructed edge payload is
  a parameter \<open>dp\<close> of the operations that add an edge, a default-constructed face payload
  a parameter of the blank \<open>add_face\<close>.
  Containers are the list-based ones (descriptors stay valid while their element lives and
  parallel edges are allowed).
  The coefficient \<open>k\<close>, a \<open>double\<close> that the class only stores, is a real number; a face
  index, an \<open>unsigned int\<close>, is a natural number: the face table is taken to be shorter than
  the range of that type.
  The identity of a new edge is \<open>g_next_id\<close>, which \<open>add_edge\<close> then advances: in every graph
  built by the operations, the identities of the edges are below \<open>g_next_id\<close>, so that a new
  descriptor differs from every descriptor in use. The theorems about
  \<open>insert_vertex_in_edge\<close> assume that of the graph they start from.
\<close>

type_synonym Vertex = nat
type_synonym Face = nat

datatype Edge = Edge (src_of: Vertex) (trg_of: Vertex) (eid: nat)

record TEdgeProperties =
  e_twin :: Edge
  e_next :: Edge
  e_face :: Face
  e_k :: real

record TFaceProperties =
  f_edge :: Edge
  f_idx :: Face

record HEDIGraph =
  faces :: "TFaceProperties list"
  g_vertices :: "Vertex list"
  g_edges :: "Edge \<rightharpoonup> TEdgeProperties"
  g_next_id :: nat

subsection \<open>Failures\<close>

text \<open>
  The class is modelled as compiled with assertions on. A failed \<open>assert\<close> aborts the
  program: it is the value \<open>Assertion_failed printed expr\<close>, where \<open>expr\<close> is the
  asserted expression and \<open>printed\<close> the error lines the function wrote to \<open>std::cout\<close>
  just before (without the numbers it interpolates).
  Undefined behaviour is a failure too: the payload of an edge descriptor that is not an
  edge of the graph, an endpoint that is not a vertex of the graph, a face index outside
  the face table, the dereference of the end iterator of a \<open>std::list\<close>, and a read
  through a reference to an object whose lifetime has ended.
  An operation whose loop may run forever returns an \<open>option\<close>: \<open>None\<close> is the call that
  never returns.
\<close>

datatype error =
    Assertion_failed "string list" string
  | Dead_edge Edge
  | Invalid_vertex Vertex
  | Face_out_of_range Face
  | List_end_dereferenced
  | Dangling_reference

definition bindE :: "error + 'a \<Rightarrow> ('a \<Rightarrow> error + 'b) \<Rightarrow> error + 'b" where
  "bindE m f = (case m of Inl err \<Rightarrow> Inl err | Inr x \<Rightarrow> f x)"

definition bindR :: "(error + 'a) option \<Rightarrow> ('a \<Rightarrow> (error + 'b) option) \<Rightarrow> (error + 'b) option" where
  "bindR m f = (case m of None \<Rightarrow> None | Some (Inl err) \<Rightarrow> Some (Inl err) | Some (Inr x) \<Rightarrow> f x)"

definition assert :: "bool \<Rightarrow> string \<Rightarrow> error + unit" where
  "assert b expr = (if b then Inr () else Inl (Assertion_failed [] expr))"

subsection \<open>Access to payloads: \<open>g[e]\<close> and \<open>faces[f]\<close>\<close>

definition props :: "HEDIGraph \<Rightarrow> Edge \<Rightarrow> error + TEdgeProperties" where
  "props g e = (case g_edges g e of None \<Rightarrow> Inl (Dead_edge e) | Some p \<Rightarrow> Inr p)"

definition update_props ::
  "HEDIGraph \<Rightarrow> Edge \<Rightarrow> (TEdgeProperties \<Rightarrow> TEdgeProperties) \<Rightarrow> error + HEDIGraph" where
  "update_props g e u =
     (case g_edges g e of
        None \<Rightarrow> Inl (Dead_edge e)
      | Some p \<Rightarrow> Inr (g\<lparr>g_edges := (g_edges g)(e \<mapsto> u p)\<rparr>))"

definition get_twin :: "HEDIGraph \<Rightarrow> Edge \<Rightarrow> error + Edge" where
  "get_twin g e = bindE (props g e) (\<lambda>p. Inr (e_twin p))"

definition get_next :: "HEDIGraph \<Rightarrow> Edge \<Rightarrow> error + Edge" where
  "get_next g e = bindE (props g e) (\<lambda>p. Inr (e_next p))"

definition get_face :: "HEDIGraph \<Rightarrow> Edge \<Rightarrow> error + Face" where
  "get_face g e = bindE (props g e) (\<lambda>p. Inr (e_face p))"

definition get_k :: "HEDIGraph \<Rightarrow> Edge \<Rightarrow> error + real" where
  "get_k g e = bindE (props g e) (\<lambda>p. Inr (e_k p))"

definition set_twin :: "HEDIGraph \<Rightarrow> Edge \<Rightarrow> Edge \<Rightarrow> error + HEDIGraph" where
  "set_twin g e x = update_props g e (\<lambda>p. p\<lparr>e_twin := x\<rparr>)"

definition set_next_field :: "HEDIGraph \<Rightarrow> Edge \<Rightarrow> Edge \<Rightarrow> error + HEDIGraph" where
  "set_next_field g e x = update_props g e (\<lambda>p. p\<lparr>e_next := x\<rparr>)"

definition set_face :: "HEDIGraph \<Rightarrow> Edge \<Rightarrow> Face \<Rightarrow> error + HEDIGraph" where
  "set_face g e f = update_props g e (\<lambda>p. p\<lparr>e_face := f\<rparr>)"

definition set_k :: "HEDIGraph \<Rightarrow> Edge \<Rightarrow> real \<Rightarrow> error + HEDIGraph" where
  "set_k g e c = update_props g e (\<lambda>p. p\<lparr>e_k := c\<rparr>)"

definition face_props :: "HEDIGraph \<Rightarrow> Face \<Rightarrow> error + TFaceProperties" where
  "face_props g f = (if f < length (faces g) then Inr (faces g ! f) else Inl (Face_out_of_range f))"

definition set_face_edge :: "HEDIGraph \<Rightarrow> Face \<Rightarrow> Edge \<Rightarrow> error + HEDIGraph" where
  "set_face_edge g f e =
     (if f < length (faces g)
      then Inr (g\<lparr>faces := (faces g)[f := (faces g ! f)\<lparr>f_edge := e\<rparr>]\<rparr>)
      else Inl (Face_out_of_range f))"

subsection \<open>Graph storage\<close>

definition target :: "HEDIGraph \<Rightarrow> Edge \<Rightarrow> Vertex" where
  "target g e = trg_of e"

definition source :: "HEDIGraph \<Rightarrow> Edge \<Rightarrow> Vertex" where
  "source g e = src_of e"

definition num_vertices :: "HEDIGraph \<Rightarrow> nat" where
  "num_vertices g = length (g_vertices g)"

definition num_faces :: "HEDIGraph \<Rightarrow> nat" where
  "num_faces g = length (faces g)"

definition add_edge ::
  "TEdgeProperties \<Rightarrow> HEDIGraph \<Rightarrow> Vertex \<Rightarrow> Vertex \<Rightarrow> error + (Edge \<times> HEDIGraph)" where
  "add_edge dp g v1 v2 =
     (if v1 \<notin> set (g_vertices g) then Inl (Invalid_vertex v1)
      else if v2 \<notin> set (g_vertices g) then Inl (Invalid_vertex v2)
      else Inr (Edge v1 v2 (g_next_id g),
                g\<lparr>g_edges := (g_edges g)(Edge v1 v2 (g_next_id g) \<mapsto> dp),
                  g_next_id := Suc (g_next_id g)\<rparr>))"

definition remove_edge :: "HEDIGraph \<Rightarrow> Edge \<Rightarrow> error + HEDIGraph" where
  "remove_edge g e =
     (case g_edges g e of
        None \<Rightarrow> Inl (Dead_edge e)
      | Some p \<Rightarrow> Inr (g\<lparr>g_edges := (g_edges g)(e := None)\<rparr>))"

subsection \<open>Twins and faces\<close>

definition twin_edges :: "HEDIGraph \<Rightarrow> Edge \<Rightarrow> Edge \<Rightarrow> error + HEDIGraph" where
  "twin_edges g e1 e2 =
     (if target g e1 \<noteq> source g e2
      then Inl (Assertion_failed ['' error target(e1) != source(e2)''] ''target(e1) == source(e2)'')
      else bindE (assert (source g e1 = target g e2) ''source(e1) == target(e2)'') (\<lambda>_.
           bindE (set_twin g e1 e2) (\<lambda>g1.
           set_twin g1 e2 e1)))"

definition add_twin_edges ::
  "TEdgeProperties \<Rightarrow> HEDIGraph \<Rightarrow> Vertex \<Rightarrow> Vertex \<Rightarrow> error + ((Edge \<times> Edge) \<times> HEDIGraph)" where
  "add_twin_edges dp g v1 v2 =
     bindE (add_edge dp g v1 v2) (\<lambda>(e1, g1).
     bindE (add_edge dp g1 v2 v1) (\<lambda>(e2, g2).
     bindE (twin_edges g2 e1 e2) (\<lambda>g3.
     Inr ((e1, e2), g3))))"

text \<open>
  \<open>add_face(prop)\<close>; the overload without argument is \<open>add_face\<close> at the
  default-constructed payload.
\<close>

definition add_face :: "HEDIGraph \<Rightarrow> TFaceProperties \<Rightarrow> Face \<times> HEDIGraph" where
  "add_face g prop =
     (let fs = faces g @ [prop];
          index = length fs - 1
      in (index, g\<lparr>faces := fs[index := (fs ! index)\<lparr>f_idx := index\<rparr>]\<rparr>))"

definition add_face_blank :: "TFaceProperties \<Rightarrow> HEDIGraph \<Rightarrow> Face \<times> HEDIGraph" where
  "add_face_blank f_prop g =
     (let fs = faces g @ [f_prop];
          index = length fs - 1
      in (index, g\<lparr>faces := fs[index := (fs ! index)\<lparr>f_idx := index\<rparr>]\<rparr>))"

subsection \<open>Boundary walks\<close>

text \<open>
  The \<open>do ... while\<close> loop of \<open>face_vertices\<close>: one call is one pass through the body.
  The counter stops the recursion at 3000000, so the function is total.
\<close>

function face_vertices_loop ::
  "HEDIGraph \<Rightarrow> Edge \<Rightarrow> Edge \<Rightarrow> nat \<Rightarrow> Vertex list \<Rightarrow> error + Vertex list" where
  "face_vertices_loop g startedge current count verts =
     (case props g current of
        Inl err \<Rightarrow> Inl err
      | Inr pc \<Rightarrow>
         (case props g (e_next pc) of
            Inl err \<Rightarrow> Inl err
          | Inr pn \<Rightarrow>
             if e_face pc \<noteq> e_face pn
             then Inl (Assertion_failed [] ''g[current].face == g[ g[current].next ].face'')
             else if count \<ge> 3000000
             then Inl (Assertion_failed ['' ERROR too many vertices on face!''] ''count < 3000000'')
             else if e_next pc \<noteq> startedge
             then face_vertices_loop g startedge (e_next pc) (count + 1) (verts @ [target g current])
             else Inr (verts @ [target g current])))"
  by pat_completeness auto
termination
  by (relation "measure (\<lambda>(g, startedge, current, count, verts). 3000000 - count)") auto

declare face_vertices_loop.simps [simp del]

definition face_vertices :: "HEDIGraph \<Rightarrow> Face \<Rightarrow> error + Vertex list" where
  "face_vertices g face_idx =
     bindE (face_props g face_idx) (\<lambda>fp.
     bindE (props g (f_edge fp)) (\<lambda>ps.
     face_vertices_loop g (f_edge fp) (e_next ps) 0 [target g (f_edge fp)]))"

text \<open>The \<open>do ... while\<close> loop of \<open>face_edges\<close>; it has no counter.\<close>

partial_function (option) face_edges_loop ::
  "HEDIGraph \<Rightarrow> Edge \<Rightarrow> Edge \<Rightarrow> Edge list \<Rightarrow> (error + Edge list) option" where
  "face_edges_loop g start_edge current_edge out =
     (case props g current_edge of
        Inl err \<Rightarrow> Some (Inl err)
      | Inr p \<Rightarrow>
         if e_next p \<noteq> start_edge
         then face_edges_loop g start_edge (e_next p) (out @ [current_edge])
         else Some (Inr (out @ [current_edge])))"

definition face_edges :: "HEDIGraph \<Rightarrow> Face \<Rightarrow> (error + Edge list) option" where
  "face_edges g f =
     (case face_props g f of
        Inl err \<Rightarrow> Some (Inl err)
      | Inr fp \<Rightarrow> face_edges_loop g (f_edge fp) (f_edge fp) [])"

text \<open>\<open>num_edges(Face f)\<close>: the boundary length of a face.\<close>

definition num_edges_face :: "HEDIGraph \<Rightarrow> Face \<Rightarrow> (error + nat) option" where
  "num_edges_face g f = bindR (face_edges g f) (\<lambda>ev. Some (Inr (length ev)))"

partial_function (option) previous_edge_loop ::
  "HEDIGraph \<Rightarrow> Edge \<Rightarrow> Edge \<Rightarrow> (error + Edge) option" where
  "previous_edge_loop g e previous =
     (case props g previous of
        Inl err \<Rightarrow> Some (Inl err)
      | Inr p \<Rightarrow>
         if e_next p \<noteq> e
         then previous_edge_loop g e (e_next p)
         else Some (Inr previous))"

definition previous_edge :: "HEDIGraph \<Rightarrow> Edge \<Rightarrow> (error + Edge) option" where
  "previous_edge g e =
     (case props g e of
        Inl err \<Rightarrow> Some (Inl err)
      | Inr p \<Rightarrow> previous_edge_loop g e (e_next p))"

subsection \<open>Splitting an edge\<close>

definition insert_vertex_in_edge ::
  "TEdgeProperties \<Rightarrow> HEDIGraph \<Rightarrow> Vertex \<Rightarrow> Edge \<Rightarrow> (error + HEDIGraph) option" where
  "insert_vertex_in_edge dp g v e =
     bindR (Some (get_twin g e)) (\<lambda>twin.
     bindR (Some (assert (source g e = target g twin) ''src == twin_target'')) (\<lambda>_.
     bindR (Some (assert (target g e = source g twin) ''trg == twin_source'')) (\<lambda>_.
     bindR (Some (get_face g e)) (\<lambda>face.
     bindR (Some (get_face g twin)) (\<lambda>twin_face.
     bindR (previous_edge g e) (\<lambda>previous.
     bindR (Some (get_face g previous)) (\<lambda>previous_face.
     bindR (Some (assert (previous_face = face) ''g[previous].face == g[e].face'')) (\<lambda>_.
     bindR (previous_edge g twin) (\<lambda>twin_previous.
     bindR (Some (get_face g twin_previous)) (\<lambda>twin_previous_face.
     bindR (Some (assert (twin_previous_face = twin_face)
                    ''g[twin_previous].face == g[twin].face'')) (\<lambda>_.
     Some (
       bindE (add_edge dp g (source g e) v) (\<lambda>(e1, g1).
       bindE (add_edge dp g1 v (target g e)) (\<lambda>(e2, g2).
       bindE (set_face g2 e1 face) (\<lambda>g3.
       bindE (set_face g3 e2 face) (\<lambda>g4.
       bindE (set_next_field g4 previous e1) (\<lambda>g5.
       bindE (set_next_field g5 e1 e2) (\<lambda>g6.
       bindE (get_next g6 e) (\<lambda>e_nxt.
       bindE (set_next_field g6 e2 e_nxt) (\<lambda>g7.
       bindE (add_edge dp g7 (source g twin) v) (\<lambda>(te1, g8).
       bindE (add_edge dp g8 v (target g twin)) (\<lambda>(te2, g9).
       bindE (set_face g9 te1 twin_face) (\<lambda>g10.
       bindE (set_face g10 te2 twin_face) (\<lambda>g11.
       bindE (set_next_field g11 twin_previous te1) (\<lambda>g12.
       bindE (set_next_field g12 te1 te2) (\<lambda>g13.
       bindE (get_next g13 twin) (\<lambda>twin_nxt.
       bindE (set_next_field g13 te2 twin_nxt) (\<lambda>g14.
       bindE (set_twin g14 e1 te2) (\<lambda>g15.
       bindE (set_twin g15 te2 e1) (\<lambda>g16.
       bindE (set_twin g16 e2 te1) (\<lambda>g17.
       bindE (set_twin g17 te1 e2) (\<lambda>g18.
       bindE (set_face_edge g18 face e1) (\<lambda>g19.
       bindE (set_face_edge g19 twin_face te1) (\<lambda>g20.
       bindE (remove_edge g20 e) (\<lambda>g21.
       remove_edge g21 twin)))))))))))))))))))))))))))))))))))"

subsection \<open>The boundary iterator\<close>

text \<open>
  \<open>edge_iterator\<close> holds the current edge and the flag \<open>m_inc\<close>; its reference to the
  graph is the argument \<open>g\<close> of \<open>increment\<close>.

  \<open>dereference\<close> copies \<open>m_edge\<close> into its local \<open>cpy\<close> and returns a reference to \<open>cpy\<close>:
  when the caller holds the reference, the object it designates is dead. A reference is
  therefore either to a live object or dangling, with the value the object held last.
  Reading through a dangling reference is undefined (\<open>read_ref\<close>); \<open>last_value\<close> is what
  a build reads that finds the storage of the dead object untouched. The source says of
  the iterator that it "seems to work in debug-mode but not with a Release build".
\<close>

datatype 'a reference = Live 'a | Dangling 'a

definition read_ref :: "'a reference \<Rightarrow> error + 'a" where
  "read_ref r = (case r of Live x \<Rightarrow> Inr x | Dangling x \<Rightarrow> Inl Dangling_reference)"

definition last_value :: "'a reference \<Rightarrow> error + 'a" where
  "last_value r = (case r of Live x \<Rightarrow> Inr x | Dangling x \<Rightarrow> Inr x)"

record edge_iterator =
  m_edge :: Edge
  m_inc :: bool

definition increment :: "HEDIGraph \<Rightarrow> edge_iterator \<Rightarrow> error + edge_iterator" where
  "increment g it = bindE (get_next g (m_edge it)) (\<lambda>n. Inr (it\<lparr>m_edge := n, m_inc := True\<rparr>))"

definition equal_itr :: "edge_iterator \<Rightarrow> edge_iterator \<Rightarrow> bool" where
  "equal_itr it other = (m_edge it = m_edge other \<and> m_inc it)"

definition dereference :: "edge_iterator \<Rightarrow> Edge reference" where
  "dereference it = Dangling (m_edge it)"

definition face_edges_itr :: "HEDIGraph \<Rightarrow> Face \<Rightarrow> error + (edge_iterator \<times> edge_iterator)" where
  "face_edges_itr g f =
     bindE (face_props g f) (\<lambda>fp.
     Inr (\<lparr>m_edge = f_edge fp, m_inc = False\<rparr>, \<lparr>m_edge = f_edge fp, m_inc = False\<rparr>))"

text \<open>
  The sequence the pair of iterators stands for: the elements a client reads with
  \<open>for (it = first; it != last; ++it) use(*it)\<close>, where \<open>it != last\<close> is
  \<open>!it.equal(last)\<close>. The argument \<open>rd\<close> is how the client's build reads \<open>*it\<close>:
  \<open>read_ref\<close> or \<open>last_value\<close>.
\<close>

partial_function (option) iterate ::
  "(Edge reference \<Rightarrow> error + Edge) \<Rightarrow> HEDIGraph \<Rightarrow> edge_iterator \<Rightarrow> edge_iterator \<Rightarrow> Edge list
     \<Rightarrow> (error + Edge list) option" where
  "iterate rd g it last_it out =
     (if equal_itr it last_it then Some (Inr out)
      else (case rd (dereference it) of
              Inl err \<Rightarrow> Some (Inl err)
            | Inr x \<Rightarrow>
               (case increment g it of
                  Inl err \<Rightarrow> Some (Inl err)
                | Inr it' \<Rightarrow> iterate rd g it' last_it (out @ [x]))))"

definition face_edges_sequence ::
  "(Edge reference \<Rightarrow> error + Edge) \<Rightarrow> HEDIGraph \<Rightarrow> Face \<Rightarrow> (error + Edge list) option" where
  "face_edges_sequence rd g f =
     (case face_edges_itr g f of
        Inl err \<Rightarrow> Some (Inl err)
      | Inr (first_it, last_it) \<Rightarrow> iterate rd g first_it last_it [])"

subsection \<open>Assembling a boundary from a list of edges\<close>

definition set_next :: "HEDIGraph \<Rightarrow> Edge \<Rightarrow> Edge \<Rightarrow> error + HEDIGraph" where
  "set_next g e1 e2 =
     (if target g e1 \<noteq> source g e2
      then Inl (Assertion_failed ['' ERROR target(e1) source(e2)''] ''target(e1) == source(e2)'')
      else set_next_field g e1 e2)"

text \<open>
  An iterator of the \<open>std::list\<close> is the part of the list from its position on: \<open>end\<close> is
  the empty list, \<open>it++\<close> drops the head, and \<open>*it\<close> is \<open>deref\<close>, undefined at \<open>end\<close>.
\<close>

definition deref :: "Edge list \<Rightarrow> error + Edge" where
  "deref it = (case it of [] \<Rightarrow> Inl List_end_dereferenced | x # _ \<Rightarrow> Inr x)"

fun set_next_cycle_loop ::
  "HEDIGraph \<Rightarrow> Edge list \<Rightarrow> Edge list \<Rightarrow> Face \<Rightarrow> real \<Rightarrow> error + HEDIGraph" where
  "set_next_cycle_loop g bgn [] f c = Inr g"
| "set_next_cycle_loop g bgn (x # nxt) f c =
     (case (if nxt \<noteq> []
            then bindE (deref (x # nxt)) (\<lambda>a. bindE (deref nxt) (\<lambda>b. set_next g a b))
            else bindE (deref (x # nxt)) (\<lambda>a. bindE (deref bgn) (\<lambda>b. set_next g a b))) of
        Inl err \<Rightarrow> Inl err
      | Inr g1 \<Rightarrow>
         (case bindE (deref (x # nxt)) (\<lambda>a. set_face g1 a f) of
            Inl err \<Rightarrow> Inl err
          | Inr g2 \<Rightarrow>
             (case bindE (deref (x # nxt)) (\<lambda>a. set_k g2 a c) of
                Inl err \<Rightarrow> Inl err
              | Inr g3 \<Rightarrow> set_next_cycle_loop g3 bgn nxt f c)))"

definition set_next_cycle :: "HEDIGraph \<Rightarrow> Edge list \<Rightarrow> Face \<Rightarrow> real \<Rightarrow> error + HEDIGraph" where
  "set_next_cycle g list f c =
     bindE (deref list) (\<lambda>a.
     bindE (set_face_edge g f a) (\<lambda>g0.
     set_next_cycle_loop g0 list list f c))"

fun set_next_chain_loop ::
  "HEDIGraph \<Rightarrow> Edge list \<Rightarrow> Face \<Rightarrow> real \<Rightarrow> error + HEDIGraph" where
  "set_next_chain_loop g [] f c = Inr g"
| "set_next_chain_loop g (x # nxt) f c =
     (case (if nxt \<noteq> []
            then bindE (deref (x # nxt)) (\<lambda>a. bindE (deref nxt) (\<lambda>b. set_next g a b))
            else Inr g) of
        Inl err \<Rightarrow> Inl err
      | Inr g1 \<Rightarrow>
         (case bindE (deref (x # nxt)) (\<lambda>a. set_face g1 a f) of
            Inl err \<Rightarrow> Inl err
          | Inr g2 \<Rightarrow>
             (case bindE (deref (x # nxt)) (\<lambda>a. set_k g2 a c) of
                Inl err \<Rightarrow> Inl err
              | Inr g3 \<Rightarrow> set_next_chain_loop g3 nxt f c)))"

text \<open>\<open>set_next_chain(list, f, k)\<close>, the overload that stamps the face and the coefficient.\<close>

definition set_next_chain :: "HEDIGraph \<Rightarrow> Edge list \<Rightarrow> Face \<Rightarrow> real \<Rightarrow> error + HEDIGraph" where
  "set_next_chain g list f c =
     bindE (deref list) (\<lambda>a.
     bindE (set_face_edge g f a) (\<lambda>g0.
     set_next_chain_loop g0 list f c))"

subsection \<open>Walks along \<open>next\<close>\<close>

text \<open>
  Two notions to state what the walks compute. \<open>steps g n e\<close> is the edge reached from
  \<open>e\<close> by following \<open>next\<close> \<open>n\<close> times through edges of the graph (\<open>None\<close> when the walk
  leaves the graph). \<open>next_chain g r xs\<close> says that \<open>xs\<close> is a walk along \<open>next\<close> through
  edges of the graph that arrives at \<open>r\<close> after its last edge and not earlier.
\<close>

fun steps :: "HEDIGraph \<Rightarrow> nat \<Rightarrow> Edge \<Rightarrow> Edge option" where
  "steps g 0 e = Some e"
| "steps g (Suc n) e = (case g_edges g e of None \<Rightarrow> None | Some p \<Rightarrow> steps g n (e_next p))"

fun next_chain :: "HEDIGraph \<Rightarrow> Edge \<Rightarrow> Edge list \<Rightarrow> bool" where
  "next_chain g r [] = False"
| "next_chain g r [x] = (case g_edges g x of None \<Rightarrow> False | Some p \<Rightarrow> e_next p = r)"
| "next_chain g r (x # y # zs) =
     (case g_edges g x of None \<Rightarrow> False | Some p \<Rightarrow> e_next p = y \<and> y \<noteq> r \<and> next_chain g r (y # zs))"

subsection \<open>Sequences of calls and example diagrams\<close>

text \<open>A client that adds the faces of a list one after the other, collecting the indices.\<close>

fun add_faces :: "HEDIGraph \<Rightarrow> TFaceProperties list \<Rightarrow> Face list \<times> HEDIGraph" where
  "add_faces g [] = ([], g)"
| "add_faces g (p # ps) =
     (fst (add_face g p) # fst (add_faces (snd (add_face g p)) ps),
      snd (add_faces (snd (add_face g p)) ps))"

text \<open>
  The triangle of vertices 0, 1, 2 with its inner face 0 (\<open>e01\<close>, \<open>e12\<close>, \<open>e20\<close>) and its
  outer face 1 (\<open>e10\<close>, \<open>e02\<close>, \<open>e21\<close>); vertex 3 is not yet connected.
\<close>

definition e01 :: Edge where "e01 = Edge 0 1 0"
definition e12 :: Edge where "e12 = Edge 1 2 1"
definition e20 :: Edge where "e20 = Edge 2 0 2"
definition e10 :: Edge where "e10 = Edge 1 0 3"
definition e21 :: Edge where "e21 = Edge 2 1 4"
definition e02 :: Edge where "e02 = Edge 0 2 5"

definition triangle :: HEDIGraph where
  "triangle =
     \<lparr>faces = [\<lparr>f_edge = e01, f_idx = 0\<rparr>, \<lparr>f_edge = e10, f_idx = 1\<rparr>],
      g_vertices = [0, 1, 2, 3],
      g_edges = map_of
        [(e01, \<lparr>e_twin = e10, e_next = e12, e_face = 0, e_k = 1\<rparr>),
         (e12, \<lparr>e_twin = e21, e_next = e20, e_face = 0, e_k = 1\<rparr>),
         (e20, \<lparr>e_twin = e02, e_next = e01, e_face = 0, e_k = 1\<rparr>),
         (e10, \<lparr>e_twin = e01, e_next = e02, e_face = 1, e_k = 1\<rparr>),
         (e02, \<lparr>e_twin = e20, e_next = e21, e_face = 1, e_k = 1\<rparr>),
         (e21, \<lparr>e_twin = e12, e_next = e10, e_face = 1, e_k = 1\<rparr>)],
      g_next_id = 6\<rparr>"

lemmas edge_defs = e01_def e12_def e20_def e10_def e21_def e02_def

text \<open>A default-constructed edge payload, for the examples.\<close>

definition blank_edge :: TEdgeProperties where
  "blank_edge = \<lparr>e_twin = Edge 0 0 0, e_next = Edge 0 0 0, e_face = 0, e_k = 0\<rparr>"

text \<open>
  A face whose walk never comes back: the representative edge \<open>la\<close> of face 0 leads to
  \<open>lb\<close>, and \<open>lb\<close> is its own \<open>next\<close>.
\<close>

definition la :: Edge where "la = Edge 0 1 0"
definition lb :: Edge where "lb = Edge 1 1 1"

definition lasso :: HEDIGraph where
  "lasso =
     \<lparr>faces = [\<lparr>f_edge = la, f_idx = 0\<rparr>],
      g_vertices = [0, 1],
      g_edges = map_of
        [(la, \<lparr>e_twin = la, e_next = lb, e_face = 0, e_k = 0\<rparr>),
         (lb, \<lparr>e_twin = lb, e_next = lb, e_face = 0, e_k = 0\<rparr>)],
      g_next_id = 2\<rparr>"

text \<open>
  Two faces bounded by one edge each: the loop \<open>l0\<close> at vertex 0 is its own \<open>next\<close> and the
  whole boundary of face 0, its twin \<open>l1\<close> is the whole boundary of face 1; vertex 1 is not
  yet connected.
\<close>

definition l0 :: Edge where "l0 = Edge 0 0 0"
definition l1 :: Edge where "l1 = Edge 0 0 1"

definition loops :: HEDIGraph where
  "loops =
     \<lparr>faces = [\<lparr>f_edge = l0, f_idx = 0\<rparr>, \<lparr>f_edge = l1, f_idx = 1\<rparr>],
      g_vertices = [0, 1],
      g_edges = map_of
        [(l0, \<lparr>e_twin = l1, e_next = l0, e_face = 0, e_k = 0\<rparr>),
         (l1, \<lparr>e_twin = l0, e_next = l1, e_face = 1, e_k = 0\<rparr>)],
      g_next_id = 2\<rparr>"

text \<open>
  An edge and its twin on the same face: the boundary of face 0 runs along \<open>b01\<close> and
  back along \<open>b10\<close>; vertex 2 is not yet connected.
\<close>

definition b01 :: Edge where "b01 = Edge 0 1 0"
definition b10 :: Edge where "b10 = Edge 1 0 1"

definition antenna :: HEDIGraph where
  "antenna =
     \<lparr>faces = [\<lparr>f_edge = b01, f_idx = 0\<rparr>],
      g_vertices = [0, 1, 2],
      g_edges = map_of
        [(b01, \<lparr>e_twin = b10, e_next = b10, e_face = 0, e_k = 0\<rparr>),
         (b10, \<lparr>e_twin = b01, e_next = b01, e_face = 0, e_k = 0\<rparr>)],
      g_next_id = 2\<rparr>"


section \<open>The face table\<close>

lemma add_face_index: "fst (add_face g prop) = length (faces g)"
  by (simp add: add_face_def Let_def)

lemma add_face_faces: "faces (snd (add_face g prop)) = faces g @ [prop\<lparr>f_idx := length (faces g)\<rparr>]"
  by (simp add: add_face_def Let_def)

lemma add_faces_indices:
  "fst (add_faces g ps) = [length (faces g) ..< length (faces g) + length ps]"
  by (induction ps arbitrary: g) (simp_all add: add_face_index add_face_faces upt_conv_Cons del: upt_Suc)

text \<open>
  C8. \<open>add_face\<close>, with or without a payload, returns the size the face table had when
  the face was created, appends the payload to the table with \<open>idx\<close> set to the returned
  index and leaves the earlier entries as they were; a sequence of calls therefore returns
  the consecutive indices from the size of the table on, each one larger than the one
  before and none twice.
\<close>

theorem add_face_returns_table_size:
  "fst (add_face g prop) = length (faces g)
   \<and> fst (add_face_blank f_prop g) = length (faces g)
   \<and> faces (snd (add_face g prop)) = faces g @ [prop\<lparr>f_idx := fst (add_face g prop)\<rparr>]
   \<and> faces (snd (add_face_blank f_prop g)) = faces g @ [f_prop\<lparr>f_idx := fst (add_face_blank f_prop g)\<rparr>]
   \<and> f_idx (faces (snd (add_face g prop)) ! fst (add_face g prop)) = fst (add_face g prop)
   \<and> f_idx (faces (snd (add_face_blank f_prop g)) ! fst (add_face_blank f_prop g)) = fst (add_face_blank f_prop g)
   \<and> fst (add_faces g ps) = [length (faces g) ..< length (faces g) + length ps]"
  by (simp add: add_face_def add_face_blank_def Let_def add_faces_indices)

section \<open>Linking twins\<close>

lemma twin_edges_ok:
  assumes "target g e1 = source g e2" "source g e1 = target g e2"
    "g_edges g e1 = Some p1" "g_edges g e2 = Some p2"
  shows "twin_edges g e1 e2 =
     Inr (g\<lparr>g_edges := \<lambda>x. map_option (\<lambda>p. if x = e2 then p\<lparr>e_twin := e1\<rparr>
                                     else if x = e1 then p\<lparr>e_twin := e2\<rparr> else p) (g_edges g x)\<rparr>)"
proof -
  have "(g_edges g)(e1 \<mapsto> p1\<lparr>e_twin := e2\<rparr>, e2 \<mapsto> (if e1 = e2 then p1\<lparr>e_twin := e2\<rparr> else p2)\<lparr>e_twin := e1\<rparr>)
     = (\<lambda>x. map_option (\<lambda>p. if x = e2 then p\<lparr>e_twin := e1\<rparr> else if x = e1 then p\<lparr>e_twin := e2\<rparr> else p) (g_edges g x))"
    using assms(3,4) by (auto simp: fun_eq_iff option.map_ident)
  then show ?thesis
    using assms
    by (auto simp: twin_edges_def assert_def bindE_def set_twin_def update_props_def)
qed

text \<open>
  C5. \<open>twin_edges\<close> requires \<open>target(e1) == source(e2)\<close> and
  \<open>source(e1) == target(e2)\<close>. When the first fails, the error line is printed and the
  first assertion aborts; when only the second fails, the second assertion aborts. In
  both cases the call ends before a twin is assigned. When both hold, for edges of the
  graph, exactly the twin of \<open>e1\<close> becomes \<open>e2\<close> and the twin of \<open>e2\<close> becomes \<open>e1\<close>: every
  other field, edge, face and vertex is as before.
\<close>

theorem twin_edges_contract:
  "(target g e1 \<noteq> source g e2 \<longrightarrow>
      twin_edges g e1 e2 =
        Inl (Assertion_failed ['' error target(e1) != source(e2)''] ''target(e1) == source(e2)''))
   \<and> (target g e1 = source g e2 \<and> source g e1 \<noteq> target g e2 \<longrightarrow>
      twin_edges g e1 e2 = Inl (Assertion_failed [] ''source(e1) == target(e2)''))
   \<and> (target g e1 = source g e2 \<and> source g e1 = target g e2
        \<and> e1 \<in> dom (g_edges g) \<and> e2 \<in> dom (g_edges g) \<longrightarrow>
      twin_edges g e1 e2 =
        Inr (g\<lparr>g_edges := \<lambda>x. map_option (\<lambda>p. if x = e2 then p\<lparr>e_twin := e1\<rparr>
                                        else if x = e1 then p\<lparr>e_twin := e2\<rparr> else p) (g_edges g x)\<rparr>))"
proof (intro conjI impI)
  assume "target g e1 \<noteq> source g e2"
  then show "twin_edges g e1 e2 =
      Inl (Assertion_failed ['' error target(e1) != source(e2)''] ''target(e1) == source(e2)'')"
    by (simp add: twin_edges_def)
next
  assume "target g e1 = source g e2 \<and> source g e1 \<noteq> target g e2"
  then show "twin_edges g e1 e2 = Inl (Assertion_failed [] ''source(e1) == target(e2)'')"
    by (simp add: twin_edges_def assert_def bindE_def)
next
  assume a: "target g e1 = source g e2 \<and> source g e1 = target g e2
        \<and> e1 \<in> dom (g_edges g) \<and> e2 \<in> dom (g_edges g)"
  then obtain p1 p2 where "g_edges g e1 = Some p1" "g_edges g e2 = Some p2"
    by auto
  with a show "twin_edges g e1 e2 =
        Inr (g\<lparr>g_edges := \<lambda>x. map_option (\<lambda>p. if x = e2 then p\<lparr>e_twin := e1\<rparr>
                                        else if x = e1 then p\<lparr>e_twin := e2\<rparr> else p) (g_edges g x)\<rparr>)"
    by (simp add: twin_edges_ok)
qed

theorem twin_edges_contract_witness:
  "target triangle e01 \<noteq> source triangle e20
   \<and> twin_edges triangle e01 e20 =
        Inl (Assertion_failed ['' error target(e1) != source(e2)''] ''target(e1) == source(e2)'')
   \<and> target triangle e01 = source triangle e12 \<and> source triangle e01 \<noteq> target triangle e12
   \<and> twin_edges triangle e01 e12 = Inl (Assertion_failed [] ''source(e1) == target(e2)'')
   \<and> target triangle e12 = source triangle e21 \<and> source triangle e12 = target triangle e21
   \<and> e12 \<in> dom (g_edges triangle) \<and> e21 \<in> dom (g_edges triangle)
   \<and> get_twin triangle e12 = Inr e21
   \<and> twin_edges triangle e12 e21 = Inr triangle"
proof -
  have h1: "target triangle e01 \<noteq> source triangle e20"
    by (simp add: target_def source_def edge_defs)
  have h2: "target triangle e01 = source triangle e12 \<and> source triangle e01 \<noteq> target triangle e12"
    by (simp add: target_def source_def edge_defs)
  have h3: "target triangle e12 = source triangle e21 \<and> source triangle e12 = target triangle e21
        \<and> e12 \<in> dom (g_edges triangle) \<and> e21 \<in> dom (g_edges triangle)"
    by (simp add: target_def source_def edge_defs triangle_def dom_def)
  have eq: "triangle\<lparr>g_edges := \<lambda>x. map_option (\<lambda>p. if x = e21 then p\<lparr>e_twin := e12\<rparr>
                           else if x = e12 then p\<lparr>e_twin := e21\<rparr> else p) (g_edges triangle x)\<rparr> = triangle"
    by (auto simp: triangle_def edge_defs fun_eq_iff)
  have t: "get_twin triangle e12 = Inr e21"
    by (simp add: get_twin_def props_def bindE_def triangle_def edge_defs)
  show ?thesis
    using twin_edges_contract [of triangle e01 e20] twin_edges_contract [of triangle e01 e12]
      twin_edges_contract [of triangle e12 e21] h1 h2 h3 eq t
    by simp
qed

section \<open>Assembling boundaries: \<open>set_next_cycle\<close> and \<open>set_next_chain\<close>\<close>

lemma assemble_step:
  assumes "g_edges g x = Some p" "trg_of x = src_of s"
  shows "(case set_next g x s of
            Inl err \<Rightarrow> Inl err
          | Inr g1 \<Rightarrow>
             (case set_face g1 x f of
                Inl err \<Rightarrow> Inl err
              | Inr g2 \<Rightarrow>
                 (case set_k g2 x c of
                    Inl err \<Rightarrow> Inl err
                  | Inr g3 \<Rightarrow> F g3)))
         = F (g\<lparr>g_edges := (g_edges g)(x \<mapsto> p\<lparr>e_next := s, e_face := f, e_k := c\<rparr>)\<rparr>)"
  using assms
  by (simp add: set_next_def set_next_field_def set_face_def set_k_def update_props_def
      target_def source_def)

lemma stamp_step:
  assumes "g_edges g x = Some p"
  shows "(case set_face g x f of
            Inl err \<Rightarrow> Inl err
          | Inr g2 \<Rightarrow>
             (case set_k g2 x c of
                Inl err \<Rightarrow> Inl err
              | Inr g3 \<Rightarrow> F g3))
         = F (g\<lparr>g_edges := (g_edges g)(x \<mapsto> p\<lparr>e_face := f, e_k := c\<rparr>)\<rparr>)"
  using assms
  by (simp add: set_face_def set_k_def update_props_def)

lemma set_next_cycle_loop_Cons:
  assumes "bgn \<noteq> []"
  shows "set_next_cycle_loop g bgn (x # nxt) f c =
     (case set_next g x (if nxt \<noteq> [] then hd nxt else hd bgn) of
        Inl err \<Rightarrow> Inl err
      | Inr g1 \<Rightarrow>
         (case set_face g1 x f of
            Inl err \<Rightarrow> Inl err
          | Inr g2 \<Rightarrow>
             (case set_k g2 x c of
                Inl err \<Rightarrow> Inl err
              | Inr g3 \<Rightarrow> set_next_cycle_loop g3 bgn nxt f c)))"
  using assms by (cases nxt; cases bgn) (simp_all add: bindE_def deref_def cong: sum.case_cong)

lemma set_next_cycle_loop_result:
  assumes "bgn \<noteq> []" "distinct it" "set it \<subseteq> dom (g_edges g)"
    "\<forall>i. Suc i < length it \<longrightarrow> trg_of (it ! i) = src_of (it ! Suc i)"
    "it \<noteq> [] \<longrightarrow> trg_of (last it) = src_of (hd bgn)"
  shows "\<exists>g'. set_next_cycle_loop g bgn it f c = Inr g'
     \<and> faces g' = faces g \<and> g_vertices g' = g_vertices g \<and> g_next_id g' = g_next_id g
     \<and> (\<forall>x. x \<notin> set it \<longrightarrow> g_edges g' x = g_edges g x)
     \<and> (\<forall>i. i < length it \<longrightarrow>
           g_edges g' (it ! i) =
             map_option (\<lambda>p. p\<lparr>e_next := (if Suc i < length it then it ! Suc i else hd bgn),
                                 e_face := f, e_k := c\<rparr>) (g_edges g (it ! i)))"
  using assms
proof (induction it arbitrary: g)
  case Nil
  then show ?case by simp
next
  case (Cons x nxt)
  from Cons.prems(3) obtain p where p: "g_edges g x = Some p" by auto
  define s where "s = (if nxt \<noteq> [] then hd nxt else hd bgn)"
  have link: "trg_of x = src_of s"
  proof (cases nxt)
    case Nil
    with Cons.prems(5) show ?thesis by (simp add: s_def)
  next
    case (Cons y ys)
    with Cons.prems(4) [rule_format, of 0] show ?thesis by (simp add: s_def)
  qed
  define g3 where "g3 = g\<lparr>g_edges := (g_edges g)(x \<mapsto> p\<lparr>e_next := s, e_face := f, e_k := c\<rparr>)\<rparr>"
  have unfold: "set_next_cycle_loop g bgn (x # nxt) f c = set_next_cycle_loop g3 bgn nxt f c"
    unfolding set_next_cycle_loop_Cons [OF \<open>bgn \<noteq> []\<close>] g3_def s_def [symmetric]
    by (rule assemble_step [OF p link])
  have x_notin: "x \<notin> set nxt" and dn: "distinct nxt" using Cons.prems(2) by simp_all
  have sub: "set nxt \<subseteq> dom (g_edges g3)" using Cons.prems(3) by (auto simp: g3_def)
  have cont: "\<forall>i. Suc i < length nxt \<longrightarrow> trg_of (nxt ! i) = src_of (nxt ! Suc i)"
  proof (intro allI impI)
    fix i assume "Suc i < length nxt"
    with Cons.prems(4) [rule_format, of "Suc i"] show "trg_of (nxt ! i) = src_of (nxt ! Suc i)"
      by simp
  qed
  have lst: "nxt \<noteq> [] \<longrightarrow> trg_of (last nxt) = src_of (hd bgn)"
    using Cons.prems(5) by auto
  from Cons.IH [OF \<open>bgn \<noteq> []\<close> dn sub cont lst]
  obtain g' where g': "set_next_cycle_loop g3 bgn nxt f c = Inr g'"
    "faces g' = faces g3" "g_vertices g' = g_vertices g3" "g_next_id g' = g_next_id g3"
    "\<forall>y. y \<notin> set nxt \<longrightarrow> g_edges g' y = g_edges g3 y"
    "\<forall>i. i < length nxt \<longrightarrow>
           g_edges g' (nxt ! i) =
             map_option (\<lambda>p. p\<lparr>e_next := (if Suc i < length nxt then nxt ! Suc i else hd bgn),
                                 e_face := f, e_k := c\<rparr>) (g_edges g3 (nxt ! i))"
    by blast
  have frame: "\<forall>y. y \<notin> set (x # nxt) \<longrightarrow> g_edges g' y = g_edges g y"
    using g'(5) by (simp add: g3_def)
  have at: "\<forall>i. i < length (x # nxt) \<longrightarrow>
           g_edges g' ((x # nxt) ! i) =
             map_option (\<lambda>p. p\<lparr>e_next := (if Suc i < length (x # nxt) then (x # nxt) ! Suc i else hd bgn),
                                 e_face := f, e_k := c\<rparr>) (g_edges g ((x # nxt) ! i))"
  proof (intro allI impI)
    fix i assume i: "i < length (x # nxt)"
    show "g_edges g' ((x # nxt) ! i) =
             map_option (\<lambda>p. p\<lparr>e_next := (if Suc i < length (x # nxt) then (x # nxt) ! Suc i else hd bgn),
                                 e_face := f, e_k := c\<rparr>) (g_edges g ((x # nxt) ! i))"
    proof (cases i)
      case 0
      have "g_edges g' x = g_edges g3 x" using g'(5) x_notin by simp
      then show ?thesis using 0 p by (cases nxt) (simp_all add: g3_def s_def)
    next
      case (Suc j)
      with i have j: "j < length nxt" by simp
      then have "nxt ! j \<noteq> x" using x_notin by (metis nth_mem)
      then have "g_edges g3 (nxt ! j) = g_edges g (nxt ! j)" by (simp add: g3_def)
      with g'(6) [rule_format, OF j] show ?thesis using Suc by simp
    qed
  qed
  show ?case
    using unfold g'(1-4) frame at by (simp add: g3_def)
qed


lemma set_next_chain_loop_Cons:
  "set_next_chain_loop g (x # nxt) f c =
     (if nxt \<noteq> []
      then (case set_next g x (hd nxt) of
              Inl err \<Rightarrow> Inl err
            | Inr g1 \<Rightarrow>
               (case set_face g1 x f of
                  Inl err \<Rightarrow> Inl err
                | Inr g2 \<Rightarrow>
                   (case set_k g2 x c of
                      Inl err \<Rightarrow> Inl err
                    | Inr g3 \<Rightarrow> set_next_chain_loop g3 nxt f c)))
      else (case set_face g x f of
              Inl err \<Rightarrow> Inl err
            | Inr g2 \<Rightarrow>
               (case set_k g2 x c of
                  Inl err \<Rightarrow> Inl err
                | Inr g3 \<Rightarrow> set_next_chain_loop g3 nxt f c)))"
  by (cases nxt) (simp_all add: bindE_def deref_def cong: sum.case_cong)

lemma set_next_chain_loop_result:
  assumes "distinct it" "set it \<subseteq> dom (g_edges g)"
    "\<forall>i. Suc i < length it \<longrightarrow> trg_of (it ! i) = src_of (it ! Suc i)"
  shows "\<exists>g'. set_next_chain_loop g it f c = Inr g'
     \<and> faces g' = faces g \<and> g_vertices g' = g_vertices g \<and> g_next_id g' = g_next_id g
     \<and> (\<forall>x. x \<notin> set it \<longrightarrow> g_edges g' x = g_edges g x)
     \<and> (\<forall>i. i < length it \<longrightarrow>
           g_edges g' (it ! i) =
             map_option (\<lambda>p. p\<lparr>e_next := (if Suc i < length it then it ! Suc i else e_next p),
                                 e_face := f, e_k := c\<rparr>) (g_edges g (it ! i)))"
  using assms
proof (induction it arbitrary: g)
  case Nil
  then show ?case by simp
next
  case (Cons x nxt)
  from Cons.prems(2) obtain p where p: "g_edges g x = Some p" by auto
  define s where "s = (if nxt \<noteq> [] then hd nxt else e_next p)"
  define g3 where "g3 = g\<lparr>g_edges := (g_edges g)(x \<mapsto> p\<lparr>e_next := s, e_face := f, e_k := c\<rparr>)\<rparr>"
  have unfold: "set_next_chain_loop g (x # nxt) f c = set_next_chain_loop g3 nxt f c"
  proof (cases nxt)
    case Nil
    then show ?thesis
      unfolding set_next_chain_loop_Cons g3_def s_def
      using stamp_step [OF p, where f = f and c = c and F = "\<lambda>g3. set_next_chain_loop g3 nxt f c"]
      by simp
  next
    case (Cons y ys)
    with Cons.prems(3) [rule_format, of 0] have link: "trg_of x = src_of (hd nxt)" by simp
    from Cons show ?thesis
      unfolding set_next_chain_loop_Cons g3_def s_def
      using assemble_step [OF p link, where f = f and c = c
          and F = "\<lambda>g3. set_next_chain_loop g3 nxt f c"]
      by simp
  qed
  have x_notin: "x \<notin> set nxt" and dn: "distinct nxt" using Cons.prems(1) by simp_all
  have sub: "set nxt \<subseteq> dom (g_edges g3)" using Cons.prems(2) by (auto simp: g3_def)
  have cont: "\<forall>i. Suc i < length nxt \<longrightarrow> trg_of (nxt ! i) = src_of (nxt ! Suc i)"
  proof (intro allI impI)
    fix i assume "Suc i < length nxt"
    with Cons.prems(3) [rule_format, of "Suc i"] show "trg_of (nxt ! i) = src_of (nxt ! Suc i)"
      by simp
  qed
  from Cons.IH [OF dn sub cont]
  obtain g' where g': "set_next_chain_loop g3 nxt f c = Inr g'"
    "faces g' = faces g3" "g_vertices g' = g_vertices g3" "g_next_id g' = g_next_id g3"
    "\<forall>y. y \<notin> set nxt \<longrightarrow> g_edges g' y = g_edges g3 y"
    "\<forall>i. i < length nxt \<longrightarrow>
           g_edges g' (nxt ! i) =
             map_option (\<lambda>p. p\<lparr>e_next := (if Suc i < length nxt then nxt ! Suc i else e_next p),
                                 e_face := f, e_k := c\<rparr>) (g_edges g3 (nxt ! i))"
    by blast
  have frame: "\<forall>y. y \<notin> set (x # nxt) \<longrightarrow> g_edges g' y = g_edges g y"
    using g'(5) by (simp add: g3_def)
  have at: "\<forall>i. i < length (x # nxt) \<longrightarrow>
           g_edges g' ((x # nxt) ! i) =
             map_option (\<lambda>p. p\<lparr>e_next := (if Suc i < length (x # nxt) then (x # nxt) ! Suc i else e_next p),
                                 e_face := f, e_k := c\<rparr>) (g_edges g ((x # nxt) ! i))"
  proof (intro allI impI)
    fix i assume i: "i < length (x # nxt)"
    show "g_edges g' ((x # nxt) ! i) =
             map_option (\<lambda>p. p\<lparr>e_next := (if Suc i < length (x # nxt) then (x # nxt) ! Suc i else e_next p),
                                 e_face := f, e_k := c\<rparr>) (g_edges g ((x # nxt) ! i))"
    proof (cases i)
      case 0
      have "g_edges g' x = g_edges g3 x" using g'(5) x_notin by simp
      then show ?thesis using 0 p by (cases nxt) (simp_all add: g3_def s_def)
    next
      case (Suc j)
      with i have j: "j < length nxt" by simp
      then have "nxt ! j \<noteq> x" using x_notin by (metis nth_mem)
      then have "g_edges g3 (nxt ! j) = g_edges g (nxt ! j)" by (simp add: g3_def)
      with g'(6) [rule_format, OF j] show ?thesis using Suc by (simp cong: if_cong)
    qed
  qed
  show ?case
    using unfold g'(1-4) frame at by (simp add: g3_def)
qed

lemma setters_in_bounds:
  "set_next g x s \<noteq> Inl List_end_dereferenced"
  "set_face g x f \<noteq> Inl List_end_dereferenced"
  "set_k g x c \<noteq> Inl List_end_dereferenced"
  "set_face_edge g f x \<noteq> Inl List_end_dereferenced"
  by (simp_all add: set_next_def set_next_field_def set_face_def set_k_def update_props_def
      set_face_edge_def split: option.splits)

lemma set_next_cycle_loop_in_bounds:
  "bgn \<noteq> [] \<Longrightarrow> set_next_cycle_loop g bgn it f c \<noteq> Inl List_end_dereferenced"
proof (induction it arbitrary: g)
  case Nil
  show ?case by simp
next
  case (Cons x nxt)
  show ?case
    unfolding set_next_cycle_loop_Cons [OF Cons.prems]
    using setters_in_bounds Cons.IH [OF Cons.prems]
    by (auto split: sum.splits)
qed

lemma set_next_chain_loop_in_bounds:
  "set_next_chain_loop g it f c \<noteq> Inl List_end_dereferenced"
proof (induction it arbitrary: g)
  case Nil
  show ?case by simp
next
  case (Cons x nxt)
  show ?case
    unfolding set_next_chain_loop_Cons
    using setters_in_bounds Cons.IH
    by (auto split: sum.splits)
qed

text \<open>
  C4. \<open>set_next_cycle\<close> on a non-empty list \<open>e1..en\<close> of distinct edges of the graph,
  each ending where the following one starts and the last ending where the first
  starts, with a face \<open>f\<close> of the table and a coefficient \<open>c\<close>: the call returns, the
  \<open>next\<close> of every edge is the following edge of the list, the \<open>next\<close> of the last is the
  first, every edge of the list has face \<open>f\<close> and coefficient \<open>c\<close>, and the representative
  edge of \<open>f\<close> is the first edge of the list.
\<close>

theorem set_next_cycle_assembles:
  assumes "list \<noteq> []" "distinct list" "set list \<subseteq> dom (g_edges g)" "f < length (faces g)"
    "\<forall>i. Suc i < length list \<longrightarrow> target g (list ! i) = source g (list ! Suc i)"
    "target g (last list) = source g (hd list)"
  shows "\<exists>g'. set_next_cycle g list f c = Inr g'
     \<and> (\<forall>i. Suc i < length list \<longrightarrow> get_next g' (list ! i) = Inr (list ! Suc i))
     \<and> get_next g' (last list) = Inr (hd list)
     \<and> (\<forall>e \<in> set list. get_face g' e = Inr f \<and> get_k g' e = Inr c)
     \<and> f_edge (faces g' ! f) = hd list"
proof -
  define g0 where "g0 = g\<lparr>faces := (faces g)[f := (faces g ! f)\<lparr>f_edge := hd list\<rparr>]\<rparr>"
  have start: "set_next_cycle g list f c = set_next_cycle_loop g0 list list f c"
    using assms(1,4) by (cases list) (simp_all add: set_next_cycle_def deref_def bindE_def
        set_face_edge_def g0_def)
  have sub: "set list \<subseteq> dom (g_edges g0)" using assms(3) by (simp add: g0_def)
  have cont: "\<forall>i. Suc i < length list \<longrightarrow> trg_of (list ! i) = src_of (list ! Suc i)"
    using assms(5) by (simp add: target_def source_def)
  have lst: "list \<noteq> [] \<longrightarrow> trg_of (last list) = src_of (hd list)"
    using assms(6) by (simp add: target_def source_def)
  from set_next_cycle_loop_result [OF assms(1) assms(2) sub cont lst, of f c]
  obtain g' where g': "set_next_cycle_loop g0 list list f c = Inr g'"
    "faces g' = faces g0"
    "\<forall>i. i < length list \<longrightarrow>
           g_edges g' (list ! i) =
             map_option (\<lambda>p. p\<lparr>e_next := (if Suc i < length list then list ! Suc i else hd list),
                                 e_face := f, e_k := c\<rparr>) (g_edges g0 (list ! i))"
    by blast
  have live: "\<And>i. i < length list \<Longrightarrow> \<exists>p. g_edges g0 (list ! i) = Some p"
    using sub by (meson domD nth_mem subsetD)
  have links: "\<forall>i. Suc i < length list \<longrightarrow> get_next g' (list ! i) = Inr (list ! Suc i)"
  proof (intro allI impI)
    fix i assume i: "Suc i < length list"
    then obtain p where "g_edges g0 (list ! i) = Some p" using live [of i] by auto
    with g'(3) [rule_format, of i] i show "get_next g' (list ! i) = Inr (list ! Suc i)"
      by (simp add: get_next_def props_def bindE_def)
  qed
  have closing: "get_next g' (last list) = Inr (hd list)"
  proof -
    have l: "last list = list ! (length list - 1)" using assms(1) by (simp add: last_conv_nth)
    obtain p where "g_edges g0 (list ! (length list - 1)) = Some p"
      using live [of "length list - 1"] assms(1) by auto
    with g'(3) [rule_format, of "length list - 1"] assms(1) show ?thesis
      by (simp add: get_next_def props_def bindE_def l)
  qed
  have stamps: "\<forall>e \<in> set list. get_face g' e = Inr f \<and> get_k g' e = Inr c"
  proof
    fix e assume "e \<in> set list"
    then obtain i where i: "i < length list" "e = list ! i" by (metis in_set_conv_nth)
    then obtain p where "g_edges g0 (list ! i) = Some p" using live [of i] by auto
    with g'(3) [rule_format, of i] i show "get_face g' e = Inr f \<and> get_k g' e = Inr c"
      by (simp add: get_face_def get_k_def props_def bindE_def)
  qed
  have rep: "f_edge (faces g' ! f) = hd list"
    using g'(2) assms(4) by (simp add: g0_def)
  show ?thesis using start g'(1) links closing stamps rep by simp
qed


theorem set_next_cycle_assembles_witness:
  "\<exists>g'. set_next_cycle triangle [e01, e12, e20] 1 2 = Inr g'
     \<and> get_next g' e01 = Inr e12 \<and> get_next g' e12 = Inr e20 \<and> get_next g' e20 = Inr e01
     \<and> get_face g' e01 = Inr 1 \<and> get_k g' e01 = Inr 2
     \<and> get_face g' e12 = Inr 1 \<and> get_k g' e12 = Inr 2
     \<and> get_face g' e20 = Inr 1 \<and> get_k g' e20 = Inr 2
     \<and> f_edge (faces g' ! 1) = e01"
proof -
  have h1: "[e01, e12, e20] \<noteq> []" by simp
  have h2: "distinct [e01, e12, e20]" by (simp add: edge_defs)
  have h3: "set [e01, e12, e20] \<subseteq> dom (g_edges triangle)"
    by (simp add: triangle_def edge_defs dom_def)
  have h4: "1 < length (faces triangle)" by (simp add: triangle_def)
  have h5: "\<forall>i. Suc i < length [e01, e12, e20] \<longrightarrow>
      target triangle ([e01, e12, e20] ! i) = source triangle ([e01, e12, e20] ! Suc i)"
    by (simp add: target_def source_def edge_defs less_Suc_eq nth_Cons')
  have h6: "target triangle (last [e01, e12, e20]) = source triangle (hd [e01, e12, e20])"
    by (simp add: target_def source_def edge_defs)
  from set_next_cycle_assembles [OF h1 h2 h3 h4 h5 h6, of 2]
  obtain g' where g': "set_next_cycle triangle [e01, e12, e20] 1 2 = Inr g'"
    "\<forall>i. Suc i < length [e01, e12, e20] \<longrightarrow> get_next g' ([e01, e12, e20] ! i) = Inr ([e01, e12, e20] ! Suc i)"
    "get_next g' (last [e01, e12, e20]) = Inr (hd [e01, e12, e20])"
    "\<forall>e \<in> set [e01, e12, e20]. get_face g' e = Inr 1 \<and> get_k g' e = Inr 2"
    "f_edge (faces g' ! 1) = hd [e01, e12, e20]"
    by blast
  from g'(2) [rule_format, of 0] g'(2) [rule_format, of 1] g'(1,3,4,5)
  show ?thesis by simp
qed

text \<open>
  C10. \<open>set_next_chain(list, f, k)\<close> on a non-empty list of distinct edges of the graph,
  each ending where the following one starts: the call returns, the representative edge of
  \<open>f\<close> is now the first edge of the list, consecutive edges are linked, every edge of the
  list has face \<open>f\<close> and coefficient \<open>c\<close>, and the \<open>next\<close> of the last edge is what it was:
  the chain is not closed.
\<close>

theorem set_next_chain_sets_representative:
  assumes "list \<noteq> []" "distinct list" "set list \<subseteq> dom (g_edges g)" "f < length (faces g)"
    "\<forall>i. Suc i < length list \<longrightarrow> target g (list ! i) = source g (list ! Suc i)"
  shows "\<exists>g'. set_next_chain g list f c = Inr g'
     \<and> f_edge (faces g' ! f) = hd list
     \<and> (\<forall>i. Suc i < length list \<longrightarrow> get_next g' (list ! i) = Inr (list ! Suc i))
     \<and> (\<forall>e \<in> set list. get_face g' e = Inr f \<and> get_k g' e = Inr c)
     \<and> get_next g' (last list) = get_next g (last list)"
proof -
  define g0 where "g0 = g\<lparr>faces := (faces g)[f := (faces g ! f)\<lparr>f_edge := hd list\<rparr>]\<rparr>"
  have start: "set_next_chain g list f c = set_next_chain_loop g0 list f c"
    using assms(1,4) by (cases list) (simp_all add: set_next_chain_def deref_def bindE_def
        set_face_edge_def g0_def)
  have sub: "set list \<subseteq> dom (g_edges g0)" using assms(3) by (simp add: g0_def)
  have cont: "\<forall>i. Suc i < length list \<longrightarrow> trg_of (list ! i) = src_of (list ! Suc i)"
    using assms(5) by (simp add: target_def source_def)
  from set_next_chain_loop_result [OF assms(2) sub cont, of f c]
  obtain g' where g': "set_next_chain_loop g0 list f c = Inr g'"
    "faces g' = faces g0"
    "\<forall>i. i < length list \<longrightarrow>
           g_edges g' (list ! i) =
             map_option (\<lambda>p. p\<lparr>e_next := (if Suc i < length list then list ! Suc i else e_next p),
                                 e_face := f, e_k := c\<rparr>) (g_edges g0 (list ! i))"
    by blast
  have live: "\<And>i. i < length list \<Longrightarrow> \<exists>p. g_edges g0 (list ! i) = Some p"
    using sub by (meson domD nth_mem subsetD)
  have links: "\<forall>i. Suc i < length list \<longrightarrow> get_next g' (list ! i) = Inr (list ! Suc i)"
  proof (intro allI impI)
    fix i assume i: "Suc i < length list"
    then obtain p where "g_edges g0 (list ! i) = Some p" using live [of i] by auto
    with g'(3) [rule_format, of i] i show "get_next g' (list ! i) = Inr (list ! Suc i)"
      by (simp add: get_next_def props_def bindE_def)
  qed
  have open_end: "get_next g' (last list) = get_next g (last list)"
  proof -
    have l: "last list = list ! (length list - 1)" using assms(1) by (simp add: last_conv_nth)
    obtain p where "g_edges g0 (list ! (length list - 1)) = Some p"
      using live [of "length list - 1"] assms(1) by auto
    with g'(3) [rule_format, of "length list - 1"] assms(1) show ?thesis
      by (simp add: get_next_def props_def bindE_def l g0_def)
  qed
  have stamps: "\<forall>e \<in> set list. get_face g' e = Inr f \<and> get_k g' e = Inr c"
  proof
    fix e assume "e \<in> set list"
    then obtain i where i: "i < length list" "e = list ! i" by (metis in_set_conv_nth)
    then obtain p where "g_edges g0 (list ! i) = Some p" using live [of i] by auto
    with g'(3) [rule_format, of i] i show "get_face g' e = Inr f \<and> get_k g' e = Inr c"
      by (simp add: get_face_def get_k_def props_def bindE_def)
  qed
  have rep: "f_edge (faces g' ! f) = hd list"
    using g'(2) assms(4) by (simp add: g0_def)
  show ?thesis using start g'(1) links open_end stamps rep by simp
qed

theorem set_next_chain_sets_representative_witness:
  "f_edge (faces triangle ! 1) = e10
   \<and> (\<exists>g'. set_next_chain triangle [e01, e12] 1 2 = Inr g'
     \<and> f_edge (faces g' ! 1) = e01
     \<and> get_next g' e01 = Inr e12
     \<and> get_face g' e01 = Inr 1 \<and> get_k g' e01 = Inr 2
     \<and> get_face g' e12 = Inr 1 \<and> get_k g' e12 = Inr 2
     \<and> get_next g' e12 = Inr e20)"
proof -
  have h1: "[e01, e12] \<noteq> []" by simp
  have h2: "distinct [e01, e12]" by (simp add: edge_defs)
  have h3: "set [e01, e12] \<subseteq> dom (g_edges triangle)"
    by (simp add: triangle_def edge_defs dom_def)
  have h4: "1 < length (faces triangle)" by (simp add: triangle_def)
  have h5: "\<forall>i. Suc i < length [e01, e12] \<longrightarrow>
      target triangle ([e01, e12] ! i) = source triangle ([e01, e12] ! Suc i)"
    by (simp add: target_def source_def edge_defs less_Suc_eq nth_Cons')
  have old: "get_next triangle e12 = Inr e20" "f_edge (faces triangle ! 1) = e10"
    by (simp_all add: get_next_def props_def bindE_def triangle_def edge_defs)
  from set_next_chain_sets_representative [OF h1 h2 h3 h4 h5, of 2]
  obtain g' where g': "set_next_chain triangle [e01, e12] 1 2 = Inr g'"
    "f_edge (faces g' ! 1) = hd [e01, e12]"
    "\<forall>i. Suc i < length [e01, e12] \<longrightarrow> get_next g' ([e01, e12] ! i) = Inr ([e01, e12] ! Suc i)"
    "\<forall>e \<in> set [e01, e12]. get_face g' e = Inr 1 \<and> get_k g' e = Inr 2"
    "get_next g' (last [e01, e12]) = get_next triangle (last [e01, e12])"
    by blast
  from g'(3) [rule_format, of 0] g'(1,2,4,5) old
  show ?thesis by simp
qed

lemma set_next_cycle_loop_succeeds:
  assumes "bgn \<noteq> []" "set it \<subseteq> dom (g_edges g)"
    "\<forall>i. Suc i < length it \<longrightarrow> trg_of (it ! i) = src_of (it ! Suc i)"
    "it \<noteq> [] \<longrightarrow> trg_of (last it) = src_of (hd bgn)"
  shows "\<exists>g'. set_next_cycle_loop g bgn it f c = Inr g'"
  using assms
proof (induction it arbitrary: g)
  case Nil
  then show ?case by simp
next
  case (Cons x nxt)
  from Cons.prems(2) obtain p where p: "g_edges g x = Some p" by auto
  define s where "s = (if nxt \<noteq> [] then hd nxt else hd bgn)"
  have link: "trg_of x = src_of s"
  proof (cases nxt)
    case Nil
    with Cons.prems(4) show ?thesis by (simp add: s_def)
  next
    case (Cons y ys)
    with Cons.prems(3) [rule_format, of 0] show ?thesis by (simp add: s_def)
  qed
  define g3 where "g3 = g\<lparr>g_edges := (g_edges g)(x \<mapsto> p\<lparr>e_next := s, e_face := f, e_k := c\<rparr>)\<rparr>"
  have unfold: "set_next_cycle_loop g bgn (x # nxt) f c = set_next_cycle_loop g3 bgn nxt f c"
    unfolding set_next_cycle_loop_Cons [OF \<open>bgn \<noteq> []\<close>] g3_def s_def [symmetric]
    by (rule assemble_step [OF p link])
  have sub: "set nxt \<subseteq> dom (g_edges g3)" using Cons.prems(2) by (auto simp: g3_def)
  have cont: "\<forall>i. Suc i < length nxt \<longrightarrow> trg_of (nxt ! i) = src_of (nxt ! Suc i)"
  proof (intro allI impI)
    fix i assume "Suc i < length nxt"
    with Cons.prems(3) [rule_format, of "Suc i"] show "trg_of (nxt ! i) = src_of (nxt ! Suc i)"
      by simp
  qed
  have lst: "nxt \<noteq> [] \<longrightarrow> trg_of (last nxt) = src_of (hd bgn)"
    using Cons.prems(4) by auto
  from Cons.IH [OF \<open>bgn \<noteq> []\<close> sub cont lst] unfold show ?case by simp
qed

lemma set_next_chain_loop_succeeds:
  assumes "set it \<subseteq> dom (g_edges g)"
    "\<forall>i. Suc i < length it \<longrightarrow> trg_of (it ! i) = src_of (it ! Suc i)"
  shows "\<exists>g'. set_next_chain_loop g it f c = Inr g'"
  using assms
proof (induction it arbitrary: g)
  case Nil
  then show ?case by simp
next
  case (Cons x nxt)
  from Cons.prems(1) obtain p where p: "g_edges g x = Some p" by auto
  define s where "s = (if nxt \<noteq> [] then hd nxt else e_next p)"
  define g3 where "g3 = g\<lparr>g_edges := (g_edges g)(x \<mapsto> p\<lparr>e_next := s, e_face := f, e_k := c\<rparr>)\<rparr>"
  have unfold: "set_next_chain_loop g (x # nxt) f c = set_next_chain_loop g3 nxt f c"
  proof (cases nxt)
    case Nil
    then show ?thesis
      unfolding set_next_chain_loop_Cons g3_def s_def
      using stamp_step [OF p, where f = f and c = c and F = "\<lambda>g3. set_next_chain_loop g3 nxt f c"]
      by simp
  next
    case (Cons y ys)
    with Cons.prems(2) [rule_format, of 0] have link: "trg_of x = src_of (hd nxt)" by simp
    from Cons show ?thesis
      unfolding set_next_chain_loop_Cons g3_def s_def
      using assemble_step [OF p link, where f = f and c = c
          and F = "\<lambda>g3. set_next_chain_loop g3 nxt f c"]
      by simp
  qed
  have sub: "set nxt \<subseteq> dom (g_edges g3)" using Cons.prems(1) by (auto simp: g3_def)
  have cont: "\<forall>i. Suc i < length nxt \<longrightarrow> trg_of (nxt ! i) = src_of (nxt ! Suc i)"
  proof (intro allI impI)
    fix i assume "Suc i < length nxt"
    with Cons.prems(2) [rule_format, of "Suc i"] show "trg_of (nxt ! i) = src_of (nxt ! Suc i)"
      by simp
  qed
  from Cons.IH [OF sub cont] unfold show ?case by simp
qed

text \<open>
  C9. On the empty list both operations dereference \<open>list.begin()\<close>, which is the end
  iterator: the result is that undefined dereference, whatever the graph and the face.
  On a non-empty list no dereference of either operation is one of the end iterator; and
  when moreover the edges are edges of the graph, \<open>f\<close> is a face of the table and each edge
  ends where its successor starts, both operations return a graph.
\<close>

theorem set_next_cycle_chain_need_nonempty_list:
  "set_next_cycle g [] f c = Inl List_end_dereferenced
   \<and> set_next_chain g [] f c = Inl List_end_dereferenced
   \<and> (list \<noteq> [] \<longrightarrow>
        set_next_cycle g list f c \<noteq> Inl List_end_dereferenced
        \<and> set_next_chain g list f c \<noteq> Inl List_end_dereferenced)
   \<and> (list \<noteq> [] \<and> set list \<subseteq> dom (g_edges g) \<and> f < length (faces g)
        \<and> (\<forall>i. Suc i < length list \<longrightarrow> target g (list ! i) = source g (list ! Suc i))
        \<and> target g (last list) = source g (hd list) \<longrightarrow>
        (\<exists>g'. set_next_cycle g list f c = Inr g') \<and> (\<exists>g'. set_next_chain g list f c = Inr g'))"
proof (intro conjI impI)
  show "set_next_cycle g [] f c = Inl List_end_dereferenced"
    by (simp add: set_next_cycle_def deref_def bindE_def)
  show "set_next_chain g [] f c = Inl List_end_dereferenced"
    by (simp add: set_next_chain_def deref_def bindE_def)
next
  assume ne: "list \<noteq> []"
  then have d: "deref list = Inr (hd list)" by (cases list) (simp_all add: deref_def)
  show "set_next_cycle g list f c \<noteq> Inl List_end_dereferenced"
    using set_next_cycle_loop_in_bounds [OF ne] setters_in_bounds(4)
    by (auto simp: set_next_cycle_def bindE_def d split: sum.splits)
  show "set_next_chain g list f c \<noteq> Inl List_end_dereferenced"
    using set_next_chain_loop_in_bounds setters_in_bounds(4)
    by (auto simp: set_next_chain_def bindE_def d split: sum.splits)
next
  assume a: "list \<noteq> [] \<and> set list \<subseteq> dom (g_edges g) \<and> f < length (faces g)
        \<and> (\<forall>i. Suc i < length list \<longrightarrow> target g (list ! i) = source g (list ! Suc i))
        \<and> target g (last list) = source g (hd list)"
  define g0 where "g0 = g\<lparr>faces := (faces g)[f := (faces g ! f)\<lparr>f_edge := hd list\<rparr>]\<rparr>"
  have s1: "set_next_cycle g list f c = set_next_cycle_loop g0 list list f c"
    using a by (cases list) (simp_all add: set_next_cycle_def deref_def bindE_def
        set_face_edge_def g0_def)
  have s2: "set_next_chain g list f c = set_next_chain_loop g0 list f c"
    using a by (cases list) (simp_all add: set_next_chain_def deref_def bindE_def
        set_face_edge_def g0_def)
  have sub: "set list \<subseteq> dom (g_edges g0)" using a by (simp add: g0_def)
  have cont: "\<forall>i. Suc i < length list \<longrightarrow> trg_of (list ! i) = src_of (list ! Suc i)"
    using a by (simp add: target_def source_def)
  have lst: "list \<noteq> [] \<longrightarrow> trg_of (last list) = src_of (hd list)"
    using a by (simp add: target_def source_def)
  have ne: "list \<noteq> []" using a by simp
  show "\<exists>g'. set_next_cycle g list f c = Inr g'"
    using set_next_cycle_loop_succeeds [OF ne sub cont lst] s1 by simp
  show "\<exists>g'. set_next_chain g list f c = Inr g'"
    using set_next_chain_loop_succeeds [OF sub cont] s2 by simp
qed

theorem set_next_cycle_chain_need_nonempty_list_witness:
  "set_next_cycle triangle [] 0 1 = Inl List_end_dereferenced
   \<and> set_next_chain triangle [] 0 1 = Inl List_end_dereferenced
   \<and> [e10, e02, e21] \<noteq> []
   \<and> set_next_cycle triangle [e10, e02, e21] 1 1 \<noteq> Inl List_end_dereferenced
   \<and> set_next_chain triangle [e10, e02, e21] 1 1 \<noteq> Inl List_end_dereferenced
   \<and> (\<exists>g'. set_next_cycle triangle [e10, e02, e21] 1 1 = Inr g')
   \<and> (\<exists>g'. set_next_chain triangle [e10, e02, e21] 1 1 = Inr g')"
proof -
  have h: "[e10, e02, e21] \<noteq> [] \<and> set [e10, e02, e21] \<subseteq> dom (g_edges triangle)
        \<and> 1 < length (faces triangle)
        \<and> (\<forall>i. Suc i < length [e10, e02, e21] \<longrightarrow>
              target triangle ([e10, e02, e21] ! i) = source triangle ([e10, e02, e21] ! Suc i))
        \<and> target triangle (last [e10, e02, e21]) = source triangle (hd [e10, e02, e21])"
    by (simp add: target_def source_def edge_defs triangle_def dom_def less_Suc_eq nth_Cons')
  show ?thesis
    using set_next_cycle_chain_need_nonempty_list [of triangle 0 1 "[e10, e02, e21]"]
      set_next_cycle_chain_need_nonempty_list [of triangle 1 1 "[e10, e02, e21]"] h
    by simp
qed

section \<open>Walks: \<open>previous_edge\<close>, \<open>face_edges\<close> and the boundary iterator\<close>

lemma next_chain_nonempty: "next_chain g r xs \<Longrightarrow> xs \<noteq> []"
  by (cases xs) simp_all

lemma next_chain_Cons:
  "next_chain g r (x # ys) =
     (\<exists>p. g_edges g x = Some p \<and>
          (if ys = [] then e_next p = r else e_next p = hd ys \<and> hd ys \<noteq> r \<and> next_chain g r ys))"
  by (cases ys) (auto split: option.splits)

lemma next_chain_live: "next_chain g r xs \<Longrightarrow> x \<in> set xs \<Longrightarrow> x \<in> dom (g_edges g)"
  by (induction g r xs rule: next_chain.induct) (auto split: option.splits)

lemma next_chain_last:
  "next_chain g r xs \<Longrightarrow> \<exists>p. g_edges g (last xs) = Some p \<and> e_next p = r"
  by (induction g r xs rule: next_chain.induct) (auto split: option.splits)

lemma next_chain_not_start: "next_chain g r xs \<Longrightarrow> r \<notin> set (tl xs)"
  by (induction g r xs rule: next_chain.induct) (auto split: option.splits)

lemma next_chain_only_last_returns:
  "next_chain g r xs \<Longrightarrow> q \<in> set xs \<Longrightarrow> g_edges g q = Some p \<Longrightarrow> e_next p = r \<Longrightarrow> q = last xs"
  by (induction g r xs rule: next_chain.induct) (auto split: option.splits)

lemma next_chain_nth:
  "next_chain g r xs \<Longrightarrow> Suc i < length xs \<Longrightarrow>
     \<exists>p. g_edges g (xs ! i) = Some p \<and> e_next p = xs ! Suc i"
proof (induction g r xs arbitrary: i rule: next_chain.induct)
  case (3 g r x y zs)
  then show ?case by (cases i) (auto split: option.splits)
qed simp_all

text \<open>A walk that reaches \<open>r\<close> after at least one step has a first arrival.\<close>

lemma steps_next_chain:
  "steps g (Suc m) x = Some r \<Longrightarrow> \<exists>xs. hd xs = x \<and> next_chain g r xs \<and> length xs \<le> Suc m"
proof (induction m arbitrary: x)
  case 0
  then obtain p where "g_edges g x = Some p" "e_next p = r" by (auto split: option.splits)
  then have "next_chain g r [x]" by simp
  then show ?case by (intro exI [of _ "[x]"]) simp
next
  case (Suc m)
  then obtain p where p: "g_edges g x = Some p" "steps g (Suc m) (e_next p) = Some r"
    by (auto split: option.splits)
  show ?case
  proof (cases "e_next p = r")
    case True
    with p have "next_chain g r [x]" by simp
    then show ?thesis by (intro exI [of _ "[x]"]) simp
  next
    case False
    from Suc.IH [OF p(2)] obtain ys where ys: "hd ys = e_next p" "next_chain g r ys" "length ys \<le> Suc m"
      by blast
    then have "ys \<noteq> []" by (auto dest: next_chain_nonempty)
    with ys p False have "next_chain g r (x # ys)" by (simp add: next_chain_Cons)
    with ys show ?thesis by (intro exI [of _ "x # ys"]) simp
  qed
qed

lemma next_chain_steps:
  "next_chain g r xs \<Longrightarrow> steps g (length xs) (hd xs) = Some r
     \<and> (\<forall>i < length xs. steps g i (hd xs) = Some (xs ! i))"
proof (induction g r xs rule: next_chain.induct)
  case (1 g r)
  then show ?case by simp
next
  case (2 g r x)
  then show ?case by (auto split: option.splits)
next
  case (3 g r x y zs)
  then obtain p where p: "g_edges g x = Some p" "e_next p = y" "next_chain g r (y # zs)"
    by (auto split: option.splits)
  from "3.IH" [OF p(1)] p have ih: "steps g (length (y # zs)) y = Some r"
    "\<forall>i < length (y # zs). steps g i y = Some ((y # zs) ! i)" by auto
  have "\<forall>i < length (x # y # zs). steps g i (hd (x # y # zs)) = Some ((x # y # zs) ! i)"
  proof (intro allI impI)
    fix i assume "i < length (x # y # zs)"
    then show "steps g i (hd (x # y # zs)) = Some ((x # y # zs) ! i)"
      using ih(2) p by (cases i) auto
  qed
  with ih(1) p show ?case by simp
qed

lemma steps_closed_under_chain:
  "next_chain g r xs \<Longrightarrow> hd xs = r \<Longrightarrow> x \<in> set xs \<Longrightarrow> steps g i x = Some q \<Longrightarrow> q \<in> set xs"
proof (induction i arbitrary: x)
  case 0
  then show ?case by simp
next
  case (Suc i)
  from Suc.prems(4) obtain p where p: "g_edges g x = Some p" "steps g i (e_next p) = Some q"
    by (auto split: option.splits)
  from Suc.prems(3) obtain j where j: "j < length xs" "x = xs ! j" by (metis in_set_conv_nth)
  have "e_next p \<in> set xs"
  proof (cases "Suc j < length xs")
    case True
    with next_chain_nth [OF Suc.prems(1) True] p j show ?thesis by auto
  next
    case False
    with j have "x = last xs" using Suc.prems(1)
      by (metis False Suc_lessI last_conv_nth list.size(3) not_less0 diff_Suc_1)
    with next_chain_last [OF Suc.prems(1)] p have "e_next p = r" by simp
    with Suc.prems(1,2) show ?thesis
      by (metis hd_in_set next_chain_nonempty)
  qed
  from Suc.IH [OF Suc.prems(1,2) this p(2)] show ?case .
qed


lemma face_edges_loop_chain:
  "next_chain g r xs \<Longrightarrow> face_edges_loop g r (hd xs) out = Some (Inr (out @ xs))"
proof (induction g r xs arbitrary: out rule: next_chain.induct)
  case (1 g r)
  then show ?case by simp
next
  case (2 g r x)
  then show ?case
    by (subst face_edges_loop.simps) (auto simp: props_def split: option.splits)
next
  case (3 g r x y zs)
  then obtain p where p: "g_edges g x = Some p" "e_next p = y" "y \<noteq> r" "next_chain g r (y # zs)"
    by (auto split: option.splits)
  from "3.IH" [OF p(1), of "out @ [x]"] p
  have "face_edges_loop g r y (out @ [x]) = Some (Inr ((out @ [x]) @ y # zs))" by simp
  with p show ?case
    by (subst face_edges_loop.simps) (simp add: props_def)
qed

lemma previous_edge_loop_chain:
  "next_chain g r xs \<Longrightarrow> previous_edge_loop g r (hd xs) = Some (Inr (last xs))"
proof (induction g r xs rule: next_chain.induct)
  case (1 g r)
  then show ?case by simp
next
  case (2 g r x)
  then show ?case
    by (subst previous_edge_loop.simps) (auto simp: props_def split: option.splits)
next
  case (3 g r x y zs)
  then obtain p where p: "g_edges g x = Some p" "e_next p = y" "y \<noteq> r" "next_chain g r (y # zs)"
    by (auto split: option.splits)
  from "3.IH" [OF p(1)] p
  have "previous_edge_loop g r y = Some (Inr (last (y # zs)))" by simp
  with p show ?case
    by (subst previous_edge_loop.simps) (simp add: props_def)
qed

lemma previous_edge_cycle:
  assumes "next_chain g e xs" "hd xs = e"
  shows "previous_edge g e = Some (Inr (last xs))"
proof (cases xs)
  case Nil
  with assms show ?thesis by simp
next
  case (Cons x ys)
  with assms have x: "x = e" by simp
  show ?thesis
  proof (cases ys)
    case Nil
    with assms Cons x obtain p where p: "g_edges g e = Some p" "e_next p = e"
      by (auto split: option.splits)
    have "previous_edge_loop g e e = Some (Inr e)"
      using previous_edge_loop_chain [OF assms(1)] Nil Cons x by simp
    with p show ?thesis using Nil Cons x by (simp add: previous_edge_def props_def)
  next
    case (Cons y zs)
    with assms \<open>xs = x # ys\<close> x obtain p where
      p: "g_edges g e = Some p" "e_next p = y" "next_chain g e (y # zs)"
      by (auto split: option.splits)
    from previous_edge_loop_chain [OF p(3)] have "previous_edge_loop g e y = Some (Inr (last (y # zs)))"
      by simp
    with p show ?thesis using Cons \<open>xs = x # ys\<close> by (simp add: previous_edge_def props_def)
  qed
qed

lemma iterate_chain:
  "next_chain g r xs \<Longrightarrow> m_edge it = hd xs \<Longrightarrow> (m_inc it \<longrightarrow> hd xs \<noteq> r) \<Longrightarrow> m_edge last_it = r \<Longrightarrow>
     iterate last_value g it last_it out = Some (Inr (out @ xs))"
proof (induction g r xs arbitrary: it out rule: next_chain.induct)
  case (1 g r)
  then show ?case by simp
next
  case (2 g r x)
  then obtain p where p: "g_edges g x = Some p" "e_next p = r" by (auto split: option.splits)
  have ne: "\<not> equal_itr it last_it" using 2 by (auto simp: equal_itr_def)
  have rd: "last_value (dereference it) = Inr x"
    using 2 by (simp add: last_value_def dereference_def)
  have inc: "increment g it = Inr (it\<lparr>m_edge := r, m_inc := True\<rparr>)"
    using 2 p by (simp add: increment_def get_next_def props_def bindE_def)
  have stop: "iterate last_value g (it\<lparr>m_edge := r, m_inc := True\<rparr>) last_it (out @ [x]) =
      Some (Inr (out @ [x]))"
    using 2 by (subst iterate.simps) (simp add: equal_itr_def)
  show ?case
    using ne rd inc stop by (subst iterate.simps) simp
next
  case (3 g r x y zs)
  then obtain p where p: "g_edges g x = Some p" "e_next p = y" "y \<noteq> r" "next_chain g r (y # zs)"
    by (auto split: option.splits)
  have ne: "\<not> equal_itr it last_it" using "3.prems" by (auto simp: equal_itr_def)
  have rd: "last_value (dereference it) = Inr x"
    using "3.prems" by (simp add: last_value_def dereference_def)
  have inc: "increment g it = Inr (it\<lparr>m_edge := y, m_inc := True\<rparr>)"
    using "3.prems" p by (simp add: increment_def get_next_def props_def bindE_def)
  have "iterate last_value g (it\<lparr>m_edge := y, m_inc := True\<rparr>) last_it (out @ [x]) =
      Some (Inr ((out @ [x]) @ y # zs))"
    using "3.IH" [OF p(1), of "it\<lparr>m_edge := y, m_inc := True\<rparr>" "out @ [x]"] p "3.prems" by simp
  then show ?case
    using ne rd inc by (subst iterate.simps) simp
qed

text \<open>
  C7. When the walk along \<open>next\<close> from \<open>e\<close> comes back to \<open>e\<close> after some \<open>n > 0\<close> steps,
  through edges of the graph, \<open>previous_edge(e)\<close> returns; the edge \<open>p\<close> it returns is on
  that walk, \<open>next(p)\<close> is \<open>e\<close>, and no other edge of the walk has \<open>e\<close> as its \<open>next\<close>.
\<close>

theorem previous_edge_on_closed_cycle:
  assumes "0 < n" "steps g n e = Some e"
  shows "\<exists>p. previous_edge g e = Some (Inr p)
     \<and> get_next g p = Inr e
     \<and> (\<exists>i. steps g i e = Some p)
     \<and> (\<forall>q i. steps g i e = Some q \<and> get_next g q = Inr e \<longrightarrow> q = p)"
proof -
  from assms obtain m where "n = Suc m" by (cases n) auto
  with assms(2) steps_next_chain [of g m e e]
  obtain xs where xs: "hd xs = e" "next_chain g e xs" by blast
  then have ne: "xs \<noteq> []" by (auto dest: next_chain_nonempty)
  have prev: "previous_edge g e = Some (Inr (last xs))"
    using previous_edge_cycle [OF xs(2,1)] .
  have nxt: "get_next g (last xs) = Inr e"
    using next_chain_last [OF xs(2)] by (auto simp: get_next_def props_def bindE_def)
  have on: "steps g (length xs - 1) e = Some (last xs)"
    using next_chain_steps [OF xs(2)] ne xs(1) by (simp add: last_conv_nth)
  have uniq: "\<forall>q i. steps g i e = Some q \<and> get_next g q = Inr e \<longrightarrow> q = last xs"
  proof (intro allI impI)
    fix q i assume a: "steps g i e = Some q \<and> get_next g q = Inr e"
    have "e \<in> set xs" using ne xs(1) by (metis hd_in_set)
    with a have "q \<in> set xs" using steps_closed_under_chain [OF xs(2,1)] by blast
    moreover from a obtain p where "g_edges g q = Some p" "e_next p = e"
      by (auto simp: get_next_def props_def bindE_def split: option.splits)
    ultimately show "q = last xs" using next_chain_only_last_returns [OF xs(2)] by blast
  qed
  show ?thesis using prev nxt on uniq by blast
qed

theorem previous_edge_on_closed_cycle_witness:
  "(0::nat) < 3 \<and> steps triangle 3 e01 = Some e01
   \<and> previous_edge triangle e01 = Some (Inr e20) \<and> get_next triangle e20 = Inr e01"
proof -
  have h1: "(0::nat) < 3" by simp
  have h2: "steps triangle 3 e01 = Some e01"
    by (simp add: eval_nat_numeral triangle_def edge_defs)
  have s2: "steps triangle 2 e01 = Some e20"
    by (simp add: eval_nat_numeral triangle_def edge_defs)
  have n: "get_next triangle e20 = Inr e01"
    by (simp add: get_next_def props_def bindE_def triangle_def edge_defs)
  from previous_edge_on_closed_cycle [OF h1 h2]
  obtain p where p: "previous_edge triangle e01 = Some (Inr p)"
    "\<forall>q i. steps triangle i e01 = Some q \<and> get_next triangle q = Inr e01 \<longrightarrow> q = p"
    by blast
  from p(2) s2 n have "e20 = p" by blast
  with p(1) h1 h2 n show ?thesis by simp
qed

text \<open>
  The stepping of the iterator is sound. For a face \<open>f\<close> of the table whose walk along
  \<open>next\<close> from \<open>faces[f].edge\<close> first comes back to that edge after \<open>n\<close> steps,
  \<open>face_edges_itr\<close> returns two iterators on the same edge that nevertheless do not compare
  equal, because \<open>m_inc\<close> is still false; and a build that reads the last value of the dead
  copies gets exactly \<open>n\<close> elements, the edge reached after \<open>i\<close> steps at position \<open>i\<close>.
\<close>

lemma face_edges_itr_steps:
  assumes "f < length (faces g)" "0 < n"
    "steps g n (f_edge (faces g ! f)) = Some (f_edge (faces g ! f))"
    "\<forall>i. 0 < i \<and> i < n \<longrightarrow> steps g i (f_edge (faces g ! f)) \<noteq> Some (f_edge (faces g ! f))"
  shows "\<exists>first_it last_it es.
      face_edges_itr g f = Inr (first_it, last_it)
      \<and> m_edge first_it = m_edge last_it \<and> \<not> equal_itr first_it last_it
      \<and> face_edges_sequence last_value g f = Some (Inr es)
      \<and> length es = n
      \<and> (\<forall>i < n. steps g i (f_edge (faces g ! f)) = Some (es ! i))"
proof -
  define r where "r = f_edge (faces g ! f)"
  define it where "it = \<lparr>m_edge = r, m_inc = False\<rparr>"
  from assms(2) obtain m where m: "n = Suc m" by (cases n) auto
  with assms(3) steps_next_chain [of g m r r]
  obtain xs where xs: "hd xs = r" "next_chain g r xs" "length xs \<le> n" by (auto simp: r_def)
  then have ne: "xs \<noteq> []" by (auto dest: next_chain_nonempty)
  from next_chain_steps [OF xs(2)] xs(1)
  have st: "steps g (length xs) r = Some r" "\<forall>i < length xs. steps g i r = Some (xs ! i)" by simp_all
  have len: "length xs = n"
  proof (rule ccontr)
    assume "length xs \<noteq> n"
    with xs(3) ne have "0 < length xs \<and> length xs < n" by simp
    with assms(4) st(1) show False by (simp add: r_def)
  qed
  have itr: "face_edges_itr g f = Inr (it, it)"
    using assms(1) by (simp add: face_edges_itr_def face_props_def bindE_def it_def r_def)
  have neq: "\<not> equal_itr it it" by (simp add: equal_itr_def it_def)
  have "iterate last_value g it it [] = Some (Inr ([] @ xs))"
    by (rule iterate_chain [OF xs(2)]) (simp_all add: it_def xs(1))
  with itr have seq: "face_edges_sequence last_value g f = Some (Inr xs)"
    by (simp add: face_edges_sequence_def)
  show ?thesis
    using itr neq seq len st(2) by (auto simp: r_def)
qed

lemma face_edges_itr_steps_triangle:
  "face_edges_sequence last_value triangle 0 = Some (Inr [e01, e12, e20])"
proof -
  have "next_chain triangle e01 [e01, e12, e20]"
    by (simp add: triangle_def edge_defs)
  from iterate_chain [OF this, of "\<lparr>m_edge = e01, m_inc = False\<rparr>" "\<lparr>m_edge = e01, m_inc = False\<rparr>" "[]"]
  show ?thesis
    by (simp add: face_edges_sequence_def face_edges_itr_def face_props_def bindE_def triangle_def)
qed

text \<open>
  What the sequence yields is another matter: every element is read through the reference
  \<open>dereference\<close> returns, and that reference dangles.
\<close>

lemma face_edges_itr_dangles:
  assumes "f < length (faces g)"
  shows "face_edges_sequence read_ref g f = Some (Inl Dangling_reference)"
proof -
  define it where "it = \<lparr>m_edge = f_edge (faces g ! f), m_inc = False\<rparr>"
  have "face_edges_itr g f = Inr (it, it)"
    using assms by (simp add: face_edges_itr_def face_props_def bindE_def it_def)
  moreover have "iterate read_ref g it it [] = Some (Inl Dangling_reference)"
    by (subst iterate.simps) (simp add: equal_itr_def it_def read_ref_def dereference_def)
  ultimately show ?thesis by (simp add: face_edges_sequence_def)
qed

text \<open>
  C6. The sequence over face 0 of the triangle, whose boundary closes after three steps:
  the iterators step through \<open>e01\<close>, \<open>e12\<close>, \<open>e20\<close> and stop, but the read of the first
  element is already undefined.
\<close>

theorem face_edges_itr_reads_dead_copy:
  "face_edges_sequence read_ref triangle 0 = Some (Inl Dangling_reference)
   \<and> face_edges_sequence last_value triangle 0 = Some (Inr [e01, e12, e20])"
proof -
  have "0 < length (faces triangle)" by (simp add: triangle_def)
  from face_edges_itr_dangles [OF this] face_edges_itr_steps_triangle show ?thesis by simp
qed

section \<open>The guard of the boundary walks\<close>

lemma face_edges_loop_lasso:
  assumes "face_edges_loop g s c out = Some y"
  shows "\<not> (g = lasso \<and> s = la \<and> (c = la \<or> c = lb))"
proof (rule face_edges_loop.raw_induct
    [where P = "\<lambda>g s c out y. \<not> (g = lasso \<and> s = la \<and> (c = la \<or> c = lb))", OF _ assms])
  fix loop g' s' c' out' y'
  assume ih: "\<And>g s c out y. loop g s c out = Some y \<Longrightarrow> \<not> (g = lasso \<and> s = la \<and> (c = la \<or> c = lb))"
    and body: "(case props g' c' of
                  Inl err \<Rightarrow> Some (Inl err)
                | Inr p \<Rightarrow> if e_next p \<noteq> s' then loop g' s' (e_next p) (out' @ [c'])
                           else Some (Inr (out' @ [c']))) = Some y'"
  show "\<not> (g' = lasso \<and> s' = la \<and> (c' = la \<or> c' = lb))"
  proof
    assume a: "g' = lasso \<and> s' = la \<and> (c' = la \<or> c' = lb)"
    with body have "loop lasso la lb (out' @ [c']) = Some y'"
      by (auto simp: props_def lasso_def la_def lb_def)
    with ih show False by blast
  qed
qed

lemma face_vertices_loop_lasso:
  "count \<le> 3000000 \<Longrightarrow>
     face_vertices_loop lasso la lb count verts =
       Inl (Assertion_failed ['' ERROR too many vertices on face!''] ''count < 3000000'')"
proof (induction "3000000 - count" arbitrary: count verts)
  case 0
  then have "count = 3000000" by simp
  then show ?case
    by (subst face_vertices_loop.simps) (simp add: props_def lasso_def la_def lb_def)
next
  case (Suc k)
  then have c: "count < 3000000" "k = 3000000 - (count + 1)" "count + 1 \<le> 3000000" by simp_all
  from Suc.hyps(1) [OF c(2,3)]
  have "face_vertices_loop lasso la lb (count + 1) (verts @ [target lasso lb]) =
       Inl (Assertion_failed ['' ERROR too many vertices on face!''] ''count < 3000000'')" .
  with c(1) show ?case
    by (subst face_vertices_loop.simps) (simp add: props_def lasso_def la_def lb_def)
qed

text \<open>
  C3. \<open>face_vertices\<close> counts its steps and stops with a failed assertion, after its error
  lines, when the count reaches 3000000; \<open>face_edges\<close> has no counter. On the face of
  \<open>lasso\<close>, whose walk never comes back to its start, \<open>face_vertices\<close> ends with that failure
  and \<open>face_edges\<close> does not return.
\<close>

theorem face_edges_has_no_guard:
  "face_edges lasso 0 = None
   \<and> face_vertices lasso 0 =
       Inl (Assertion_failed ['' ERROR too many vertices on face!''] ''count < 3000000'')"
proof
  have "face_edges lasso 0 = face_edges_loop lasso la la []"
    by (simp add: face_edges_def face_props_def lasso_def)
  moreover have "face_edges_loop lasso la la [] = None"
    using face_edges_loop_lasso [of lasso la la "[]"] by (cases "face_edges_loop lasso la la []") auto
  ultimately show "face_edges lasso 0 = None" by simp
next
  have "face_vertices lasso 0 = face_vertices_loop lasso la lb 0 [target lasso la]"
    by (simp add: face_vertices_def face_props_def props_def bindE_def lasso_def la_def lb_def)
  then show "face_vertices lasso 0 =
       Inl (Assertion_failed ['' ERROR too many vertices on face!''] ''count < 3000000'')"
    by (simp add: face_vertices_loop_lasso)
qed

lemma face_vertices_loop_guard_unreachable:
  "next_chain g r ys \<Longrightarrow> count + length ys \<le> 3000000 \<Longrightarrow>
     face_vertices_loop g r (hd ys) count verts \<noteq>
       Inl (Assertion_failed ['' ERROR too many vertices on face!''] ''count < 3000000'')"
proof (induction g r ys arbitrary: count verts rule: next_chain.induct)
  case (1 g r)
  then show ?case by simp
next
  case (2 g r x)
  then show ?case
    by (subst face_vertices_loop.simps) (auto simp: props_def split: option.splits)
next
  case (3 g r x y zs)
  then obtain p where p: "g_edges g x = Some p" "e_next p = y" "y \<noteq> r" "next_chain g r (y # zs)"
    by (auto split: option.splits)
  from "3.prems" have c: "count + 1 + length (y # zs) \<le> 3000000" "count < 3000000" by simp_all
  from "3.IH" [OF p(1), of "count + 1" "verts @ [target g x]"] p c
  have "face_vertices_loop g r y (count + 1) (verts @ [target g x]) \<noteq>
       Inl (Assertion_failed ['' ERROR too many vertices on face!''] ''count < 3000000'')"
    by simp
  with p c show ?case
    by (subst face_vertices_loop.simps) (auto simp: props_def split: option.splits)
qed

lemma face_vertices_loop_chain:
  "next_chain g r ys \<Longrightarrow> \<forall>x \<in> set ys. \<exists>p. g_edges g x = Some p \<and> e_face p = fc \<Longrightarrow>
     \<exists>p. g_edges g r = Some p \<and> e_face p = fc \<Longrightarrow> count + length ys \<le> 3000000 \<Longrightarrow>
     face_vertices_loop g r (hd ys) count verts = Inr (verts @ map (target g) ys)"
proof (induction g r ys arbitrary: count verts rule: next_chain.induct)
  case (1 g r)
  then show ?case by simp
next
  case (2 g r x)
  then show ?case
    by (subst face_vertices_loop.simps) (auto simp: props_def split: option.splits)
next
  case (3 g r x y zs)
  then obtain p where p: "g_edges g x = Some p" "e_next p = y" "y \<noteq> r" "next_chain g r (y # zs)"
    by (auto split: option.splits)
  from "3.prems" obtain py where py: "g_edges g y = Some py" "e_face py = fc" "e_face p = fc"
    using p by auto
  from "3.prems" have c: "count + 1 + length (y # zs) \<le> 3000000" "count < 3000000" by simp_all
  from "3.IH" [OF p(1), of "count + 1" "verts @ [target g x]"] p c "3.prems"
  have "face_vertices_loop g r y (count + 1) (verts @ [target g x]) =
      Inr ((verts @ [target g x]) @ map (target g) (y # zs))"
    by simp
  with p py c show ?case
    by (subst face_vertices_loop.simps) (simp add: props_def)
qed


text \<open>
  The guard of \<open>face_vertices\<close> is out of reach on a face whose walk closes in time: when
  the walk from the representative edge is back there after \<open>n\<close> steps, for some \<open>n\<close> from
  1 to 3000001, the result is not the failure of the guard.
\<close>

lemma face_vertices_guard_unreachable:
  assumes "f < length (faces g)" "0 < n" "n \<le> 3000001"
    "steps g n (f_edge (faces g ! f)) = Some (f_edge (faces g ! f))"
  shows "face_vertices g f \<noteq>
       Inl (Assertion_failed ['' ERROR too many vertices on face!''] ''count < 3000000'')"
proof -
  define r where "r = f_edge (faces g ! f)"
  from assms(2) obtain m where m: "n = Suc m" by (cases n) auto
  with assms(4) steps_next_chain [of g m r r]
  obtain xs where xs: "hd xs = r" "next_chain g r xs" "length xs \<le> n" by (auto simp: r_def)
  then obtain ys where l: "xs = r # ys" by (cases xs) auto
  show ?thesis
  proof (cases ys)
    case Nil
    with xs l obtain p where p: "g_edges g r = Some p" "e_next p = r"
      by (auto split: option.splits)
    have "face_vertices g f = face_vertices_loop g r r 0 [target g r]"
      using assms(1) p by (simp add: face_vertices_def face_props_def props_def bindE_def r_def)
    moreover have "next_chain g r [r]" using xs l Nil by simp
    ultimately show ?thesis
      using face_vertices_loop_guard_unreachable [of g r "[r]" 0 "[target g r]"] by simp
  next
    case (Cons y zs)
    with xs l obtain p where p: "g_edges g r = Some p" "e_next p = y" "next_chain g r (y # zs)"
      by (auto split: option.splits)
    have "face_vertices g f = face_vertices_loop g r y 0 [target g r]"
      using assms(1) p by (simp add: face_vertices_def face_props_def props_def bindE_def r_def)
    moreover have "0 + length (y # zs) \<le> 3000000" using xs(3) l Cons assms(3) by simp
    ultimately show ?thesis
      using face_vertices_loop_guard_unreachable [OF p(3), of 0 "[target g r]"] by simp
  qed
qed

section \<open>Splitting an edge: \<open>insert_vertex_in_edge\<close>\<close>

lemma add_edge_fresh:
  assumes "\<forall>y \<in> dom (g_edges g). eid y < g_next_id g" "add_edge dp g a b = Inr (x, g')"
  shows "x \<notin> dom (g_edges g)" "\<forall>y \<in> dom (g_edges g'). eid y < g_next_id g'"
proof -
  from assms(2) have x: "x = Edge a b (g_next_id g)"
    and g': "g' = g\<lparr>g_edges := (g_edges g)(Edge a b (g_next_id g) \<mapsto> dp), g_next_id := Suc (g_next_id g)\<rparr>"
    by (auto simp: add_edge_def split: if_splits)
  show "x \<notin> dom (g_edges g)"
  proof
    assume "x \<in> dom (g_edges g)"
    with assms(1) have "eid x < g_next_id g" by blast
    with x show False by simp
  qed
  show "\<forall>y \<in> dom (g_edges g'). eid y < g_next_id g'"
  proof
    fix y assume "y \<in> dom (g_edges g')"
    then have "y = Edge a b (g_next_id g) \<or> y \<in> dom (g_edges g)" by (auto simp: g')
    then show "eid y < g_next_id g'"
    proof
      assume "y = Edge a b (g_next_id g)"
      then show ?thesis by (simp add: g')
    next
      assume "y \<in> dom (g_edges g)"
      with assms(1) have "eid y < g_next_id g" by blast
      then show ?thesis by (simp add: g')
    qed
  qed
qed

lemma old_edge_not_new:
  assumes "\<forall>x \<in> dom (g_edges g). eid x < g_next_id g" "g_edges g x = Some q" "g_next_id g \<le> n"
  shows "x \<noteq> Edge a b n" "Edge a b n \<noteq> x"
  using assms by (auto simp: dom_def)

text \<open>
  One side of the split: the two new edges replacing \<open>x\<close> on its face, linked after the
  previous edge \<open>prev\<close> of \<open>x\<close>. \<open>K\<close> is the rest of the operation.
\<close>

lemma split_side:
  assumes new: "\<And>a b k. Edge a b (g_next_id g + k) \<noteq> x" "\<And>a b k. Edge a b (g_next_id g + k) \<noteq> prev"
    and x: "g_edges g x = Some px" and prev: "g_edges g prev = Some pprev"
    and verts: "a \<in> set (g_vertices g)" "b \<in> set (g_vertices g)" "v \<in> set (g_vertices g)"
  shows "bindE (add_edge dp g a v) (\<lambda>(e1, g1).
       bindE (add_edge dp g1 v b) (\<lambda>(e2, g2).
       bindE (set_face g2 e1 F) (\<lambda>g3.
       bindE (set_face g3 e2 F) (\<lambda>g4.
       bindE (set_next_field g4 prev e1) (\<lambda>g5.
       bindE (set_next_field g5 e1 e2) (\<lambda>g6.
       bindE (get_next g6 x) (\<lambda>e_nxt.
       bindE (set_next_field g6 e2 e_nxt) (\<lambda>g7.
       K e1 e2 g7))))))))
     = K (Edge a v (g_next_id g)) (Edge v b (Suc (g_next_id g)))
         (g\<lparr>g_next_id := Suc (Suc (g_next_id g)),
            g_edges := (g_edges g)
              (prev \<mapsto> pprev\<lparr>e_next := Edge a v (g_next_id g)\<rparr>,
               Edge a v (g_next_id g) \<mapsto> dp\<lparr>e_face := F, e_next := Edge v b (Suc (g_next_id g))\<rparr>,
               Edge v b (Suc (g_next_id g)) \<mapsto>
                 dp\<lparr>e_face := F, e_next := (if x = prev then Edge a v (g_next_id g) else e_next px)\<rparr>)\<rparr>)"
proof -
  have n: "\<And>a b. Edge a b (g_next_id g) \<noteq> x" "\<And>a b. Edge a b (g_next_id g) \<noteq> prev"
    "\<And>a b. Edge a b (Suc (g_next_id g)) \<noteq> x" "\<And>a b. Edge a b (Suc (g_next_id g)) \<noteq> prev"
    using new [of _ _ 0] new [of _ _ 1] by simp_all
  have n': "\<And>a b. x \<noteq> Edge a b (g_next_id g)" "\<And>a b. prev \<noteq> Edge a b (g_next_id g)"
    "\<And>a b. x \<noteq> Edge a b (Suc (g_next_id g))" "\<And>a b. prev \<noteq> Edge a b (Suc (g_next_id g))"
    using n by blast+
  show ?thesis
    using x prev verts n n'
    by (simp add: bindE_def get_next_def props_def add_edge_def set_face_def set_next_field_def
        update_props_def)
qed


lemma bindE_simps:
  "bindE (Inr x) f = f x"
  "bindE (Inl err) f = Inl err"
  by (simp_all add: bindE_def)

lemma bindR_simps:
  "bindR (Some (Inr x)) h = h x"
  "bindR (Some (Inl err)) h = Some (Inl err)"
  "bindR None h = None"
  by (simp_all add: bindR_def)

lemma split_finish:
  assumes live: "g_edges G e1 = Some q1" "g_edges G e2 = Some q2" "g_edges G te1 = Some q3"
      "g_edges G te2 = Some q4" "g_edges G e = Some q5" "g_edges G t = Some q6"
    and ne: "e1 \<noteq> e2" "e1 \<noteq> te1" "e1 \<noteq> te2" "e2 \<noteq> te1" "e2 \<noteq> te2" "te1 \<noteq> te2"
      "e \<noteq> t" "e \<noteq> e1" "e \<noteq> e2" "e \<noteq> te1" "e \<noteq> te2" "t \<noteq> e1" "t \<noteq> e2" "t \<noteq> te1" "t \<noteq> te2"
    and fcs: "F < length (faces G)" "TF < length (faces G)"
  shows "bindE (set_twin G e1 te2) (\<lambda>g15.
       bindE (set_twin g15 te2 e1) (\<lambda>g16.
       bindE (set_twin g16 e2 te1) (\<lambda>g17.
       bindE (set_twin g17 te1 e2) (\<lambda>g18.
       bindE (set_face_edge g18 F e1) (\<lambda>g19.
       bindE (set_face_edge g19 TF te1) (\<lambda>g20.
       bindE (remove_edge g20 e) (\<lambda>g21.
       remove_edge g21 t)))))))
     = Inr (G\<lparr>faces := (faces G)[F := (faces G ! F)\<lparr>f_edge := e1\<rparr>,
                                 TF := ((faces G)[F := (faces G ! F)\<lparr>f_edge := e1\<rparr>] ! TF)\<lparr>f_edge := te1\<rparr>],
              g_edges := (g_edges G)
                (e1 \<mapsto> q1\<lparr>e_twin := te2\<rparr>, te2 \<mapsto> q4\<lparr>e_twin := e1\<rparr>,
                 e2 \<mapsto> q2\<lparr>e_twin := te1\<rparr>, te1 \<mapsto> q3\<lparr>e_twin := e2\<rparr>,
                 e := None, t := None)\<rparr>)"
  using live ne ne [symmetric] fcs
  by (simp add: bindE_def set_twin_def update_props_def set_face_edge_def remove_edge_def)


lemma insert_vertex_in_edge_result:
  assumes ids: "\<forall>x \<in> dom (g_edges g). eid x < g_next_id g"
    and e: "g_edges g e = Some pe" and t: "g_edges g (e_twin pe) = Some pt"
    and ends: "src_of e = trg_of (e_twin pe)" "trg_of e = src_of (e_twin pe)"
    and verts: "v \<in> set (g_vertices g)" "src_of e \<in> set (g_vertices g)" "trg_of e \<in> set (g_vertices g)"
    and fcs: "e_face pe < length (faces g)" "e_face pt < length (faces g)" "e_face pe \<noteq> e_face pt"
    and prev: "previous_edge g e = Some (Inr p)" "previous_edge g (e_twin pe) = Some (Inr tp)"
    and p: "g_edges g p = Some pp" "e_face pp = e_face pe"
    and tp: "g_edges g tp = Some ptp" "e_face ptp = e_face pt"
  shows "\<exists>g'. insert_vertex_in_edge dp g v e = Some (Inr g')
     \<and> g_vertices g' = g_vertices g
     \<and> faces g' = (faces g)[e_face pe := (faces g ! e_face pe)\<lparr>f_edge := Edge (src_of e) v (g_next_id g)\<rparr>,
                             e_face pt := (faces g ! e_face pt)\<lparr>f_edge := Edge (trg_of e) v (g_next_id g + 2)\<rparr>]
     \<and> (\<forall>x. g_edges g' x =
          (if x = Edge (src_of e) v (g_next_id g)
           then Some (dp\<lparr>e_twin := Edge v (src_of e) (g_next_id g + 3),
                          e_next := Edge v (trg_of e) (g_next_id g + 1), e_face := e_face pe\<rparr>)
           else if x = Edge v (trg_of e) (g_next_id g + 1)
           then Some (dp\<lparr>e_twin := Edge (trg_of e) v (g_next_id g + 2),
                          e_next := (if p = e then Edge (src_of e) v (g_next_id g) else e_next pe),
                          e_face := e_face pe\<rparr>)
           else if x = Edge (trg_of e) v (g_next_id g + 2)
           then Some (dp\<lparr>e_twin := Edge v (trg_of e) (g_next_id g + 1),
                          e_next := Edge v (src_of e) (g_next_id g + 3), e_face := e_face pt\<rparr>)
           else if x = Edge v (src_of e) (g_next_id g + 3)
           then Some (dp\<lparr>e_twin := Edge (src_of e) v (g_next_id g),
                          e_next := (if tp = e_twin pe then Edge (trg_of e) v (g_next_id g + 2) else e_next pt),
                          e_face := e_face pt\<rparr>)
           else if x = e \<or> x = e_twin pe then None
           else if x = p then Some (pp\<lparr>e_next := Edge (src_of e) v (g_next_id g)\<rparr>)
           else if x = tp then Some (ptp\<lparr>e_next := Edge (trg_of e) v (g_next_id g + 2)\<rparr>)
           else g_edges g x))"
proof -
  define t where "t = e_twin pe"
  have d1: "pe \<noteq> pt" "pp \<noteq> pt" "ptp \<noteq> pe" "pp \<noteq> ptp"
    using fcs(3) p(2) tp(2) by auto
  then have d2: "e \<noteq> t" "p \<noteq> t" "tp \<noteq> e" "p \<noteq> tp"
    using e t p(1) tp(1) by (auto simp: t_def)
  have prefix: "insert_vertex_in_edge dp g v e = Some (
       bindE (add_edge dp g (src_of e) v) (\<lambda>(e1, g1).
       bindE (add_edge dp g1 v (trg_of e)) (\<lambda>(e2, g2).
       bindE (set_face g2 e1 (e_face pe)) (\<lambda>g3.
       bindE (set_face g3 e2 (e_face pe)) (\<lambda>g4.
       bindE (set_next_field g4 p e1) (\<lambda>g5.
       bindE (set_next_field g5 e1 e2) (\<lambda>g6.
       bindE (get_next g6 e) (\<lambda>e_nxt.
       bindE (set_next_field g6 e2 e_nxt) (\<lambda>g7.
       bindE (add_edge dp g7 (src_of t) v) (\<lambda>(te1, g8).
       bindE (add_edge dp g8 v (trg_of t)) (\<lambda>(te2, g9).
       bindE (set_face g9 te1 (e_face pt)) (\<lambda>g10.
       bindE (set_face g10 te2 (e_face pt)) (\<lambda>g11.
       bindE (set_next_field g11 tp te1) (\<lambda>g12.
       bindE (set_next_field g12 te1 te2) (\<lambda>g13.
       bindE (get_next g13 t) (\<lambda>twin_nxt.
       bindE (set_next_field g13 te2 twin_nxt) (\<lambda>g14.
       bindE (set_twin g14 e1 te2) (\<lambda>g15.
       bindE (set_twin g15 te2 e1) (\<lambda>g16.
       bindE (set_twin g16 e2 te1) (\<lambda>g17.
       bindE (set_twin g17 te1 e2) (\<lambda>g18.
       bindE (set_face_edge g18 (e_face pe) e1) (\<lambda>g19.
       bindE (set_face_edge g19 (e_face pt) te1) (\<lambda>g20.
       bindE (remove_edge g20 e) (\<lambda>g21.
       remove_edge g21 t))))))))))))))))))))))))"
    using e t ends prev p tp
    by (simp add: insert_vertex_in_edge_def get_twin_def get_face_def props_def assert_def
        source_def target_def bindE_simps bindR_simps t_def)
  note fresh = old_edge_not_new [OF ids]
  let ?E1 = "Edge (src_of e) v (g_next_id g)"
  let ?E2 = "Edge v (trg_of e) (Suc (g_next_id g))"
  let ?G7 = "g\<lparr>g_next_id := Suc (Suc (g_next_id g)),
            g_edges := (g_edges g)
              (p \<mapsto> pp\<lparr>e_next := ?E1\<rparr>,
               ?E1 \<mapsto> dp\<lparr>e_face := e_face pe, e_next := ?E2\<rparr>,
               ?E2 \<mapsto> dp\<lparr>e_face := e_face pe, e_next := (if e = p then ?E1 else e_next pe)\<rparr>)\<rparr>"
  let ?TE1 = "Edge (src_of t) v (g_next_id ?G7)"
  let ?TE2 = "Edge v (trg_of t) (Suc (g_next_id ?G7))"
  let ?G14 = "?G7\<lparr>g_next_id := Suc (Suc (g_next_id ?G7)),
            g_edges := (g_edges ?G7)
              (tp \<mapsto> ptp\<lparr>e_next := ?TE1\<rparr>,
               ?TE1 \<mapsto> dp\<lparr>e_face := e_face pt, e_next := ?TE2\<rparr>,
               ?TE2 \<mapsto> dp\<lparr>e_face := e_face pt, e_next := (if t = tp then ?TE1 else e_next pt)\<rparr>)\<rparr>"
  have t0: "g_edges g t = Some pt" using t by (simp add: t_def)
  have a1: "\<And>a b k. Edge a b (g_next_id g + k) \<noteq> e" "\<And>a b k. Edge a b (g_next_id g + k) \<noteq> p"
    using fresh(2) [OF e] fresh(2) [OF p(1)] by simp_all
  have a2: "\<And>a b k. Edge a b (g_next_id g + k) \<noteq> t" "\<And>a b k. Edge a b (g_next_id g + k) \<noteq> tp"
    using fresh(2) [OF t0] fresh(2) [OF tp(1)] by simp_all
  have b1: "\<And>a b k. Edge a b (g_next_id ?G7 + k) \<noteq> t" "\<And>a b k. Edge a b (g_next_id ?G7 + k) \<noteq> tp"
    using fresh(2) [OF t0] fresh(2) [OF tp(1)] by simp_all
  have b2: "g_edges ?G7 t = Some pt" "g_edges ?G7 tp = Some ptp"
    using t0 tp(1) d2 a2 [of _ _ 0] a2 [of _ _ 1] by (simp_all add: eq_commute [of t] eq_commute [of tp])
  have b3: "src_of t \<in> set (g_vertices ?G7)" "trg_of t \<in> set (g_vertices ?G7)" "v \<in> set (g_vertices ?G7)"
    using verts ends by (simp_all add: t_def)
  have c1: "g_edges ?G14 ?E1 = Some (dp\<lparr>e_face := e_face pe, e_next := ?E2\<rparr>)"
    "g_edges ?G14 ?E2 = Some (dp\<lparr>e_face := e_face pe, e_next := (if e = p then ?E1 else e_next pe)\<rparr>)"
    "g_edges ?G14 ?TE1 = Some (dp\<lparr>e_face := e_face pt, e_next := ?TE2\<rparr>)"
    "g_edges ?G14 ?TE2 = Some (dp\<lparr>e_face := e_face pt, e_next := (if t = tp then ?TE1 else e_next pt)\<rparr>)"
    using a2 [of _ _ 0] a2 [of _ _ 1] by simp_all
  have c3: "?E1 \<noteq> ?E2" "?E1 \<noteq> ?TE1" "?E1 \<noteq> ?TE2" "?E2 \<noteq> ?TE1" "?E2 \<noteq> ?TE2" "?TE1 \<noteq> ?TE2"
    by simp_all
  have c4: "e \<noteq> ?E1" "e \<noteq> ?E2" "e \<noteq> ?TE1" "e \<noteq> ?TE2" "t \<noteq> ?E1" "t \<noteq> ?E2" "t \<noteq> ?TE1" "t \<noteq> ?TE2"
    using fresh(1) [OF e] fresh(1) [OF t0] by simp_all
  have c2: "g_edges ?G14 e = Some (if e = p then pp\<lparr>e_next := ?E1\<rparr> else pe)"
    "g_edges ?G14 t = Some (if t = tp then ptp\<lparr>e_next := ?TE1\<rparr> else pt)"
    using e t0 p(1) tp(1) d2 d2 [symmetric] c4 c4 [symmetric]
    by simp_all
  have c5: "e_face pe < length (faces ?G14)" "e_face pt < length (faces ?G14)"
    using fcs by simp_all
  define G' where "G' = ?G14\<lparr>faces := (faces ?G14)[e_face pe := (faces ?G14 ! e_face pe)\<lparr>f_edge := ?E1\<rparr>,
          e_face pt := ((faces ?G14)[e_face pe := (faces ?G14 ! e_face pe)\<lparr>f_edge := ?E1\<rparr>] ! e_face pt)\<lparr>f_edge := ?TE1\<rparr>],
        g_edges := (g_edges ?G14)
          (?E1 \<mapsto> (dp\<lparr>e_face := e_face pe, e_next := ?E2\<rparr>)\<lparr>e_twin := ?TE2\<rparr>,
           ?TE2 \<mapsto> (dp\<lparr>e_face := e_face pt, e_next := (if t = tp then ?TE1 else e_next pt)\<rparr>)\<lparr>e_twin := ?E1\<rparr>,
           ?E2 \<mapsto> (dp\<lparr>e_face := e_face pe, e_next := (if e = p then ?E1 else e_next pe)\<rparr>)\<lparr>e_twin := ?TE1\<rparr>,
           ?TE1 \<mapsto> (dp\<lparr>e_face := e_face pt, e_next := ?TE2\<rparr>)\<lparr>e_twin := ?E2\<rparr>,
           e := None, t := None)\<rparr>"
  have res: "insert_vertex_in_edge dp g v e = Some (Inr G')"
    unfolding prefix G'_def
    apply (subst split_side [where g = g and x = e and prev = p, OF a1 e p(1) verts(2,3,1)])
    apply (subst split_side [where g = ?G7 and x = t and prev = tp, OF b1 b2 b3])
    apply (subst split_finish [where G = ?G14 and e = e and t = t, OF c1 c2 c3 d2(1) c4 c5])
    apply (rule refl)
    done
  have vs: "g_vertices G' = g_vertices g" by (simp add: G'_def)
  have fs: "faces G' = (faces g)[e_face pe := (faces g ! e_face pe)\<lparr>f_edge := Edge (src_of e) v (g_next_id g)\<rparr>,
                             e_face pt := (faces g ! e_face pt)\<lparr>f_edge := Edge (trg_of e) v (g_next_id g + 2)\<rparr>]"
    using fcs ends by (simp add: G'_def t_def)
  have es: "g_edges G' x =
          (if x = Edge (src_of e) v (g_next_id g)
           then Some (dp\<lparr>e_twin := Edge v (src_of e) (g_next_id g + 3),
                          e_next := Edge v (trg_of e) (g_next_id g + 1), e_face := e_face pe\<rparr>)
           else if x = Edge v (trg_of e) (g_next_id g + 1)
           then Some (dp\<lparr>e_twin := Edge (trg_of e) v (g_next_id g + 2),
                          e_next := (if p = e then Edge (src_of e) v (g_next_id g) else e_next pe),
                          e_face := e_face pe\<rparr>)
           else if x = Edge (trg_of e) v (g_next_id g + 2)
           then Some (dp\<lparr>e_twin := Edge v (trg_of e) (g_next_id g + 1),
                          e_next := Edge v (src_of e) (g_next_id g + 3), e_face := e_face pt\<rparr>)
           else if x = Edge v (src_of e) (g_next_id g + 3)
           then Some (dp\<lparr>e_twin := Edge (src_of e) v (g_next_id g),
                          e_next := (if tp = e_twin pe then Edge (trg_of e) v (g_next_id g + 2) else e_next pt),
                          e_face := e_face pt\<rparr>)
           else if x = e \<or> x = e_twin pe then None
           else if x = p then Some (pp\<lparr>e_next := Edge (src_of e) v (g_next_id g)\<rparr>)
           else if x = tp then Some (ptp\<lparr>e_next := Edge (trg_of e) v (g_next_id g + 2)\<rparr>)
           else g_edges g x)" for x
  proof -
    have tt: "src_of t = trg_of e" "trg_of t = src_of e" "e_twin pe = t"
      using ends by (simp_all add: t_def)
    consider (e1) "x = ?E1" | (e2) "x = ?E2" | (te1) "x = ?TE1" | (te2) "x = ?TE2"
      | (dead) "x \<noteq> ?E1" "x \<noteq> ?E2" "x \<noteq> ?TE1" "x \<noteq> ?TE2" "x = e \<or> x = t"
      | (p) "x \<noteq> ?E1" "x \<noteq> ?E2" "x \<noteq> ?TE1" "x \<noteq> ?TE2" "x \<noteq> e" "x \<noteq> t" "x = p"
      | (tp) "x \<noteq> ?E1" "x \<noteq> ?E2" "x \<noteq> ?TE1" "x \<noteq> ?TE2" "x \<noteq> e" "x \<noteq> t" "x \<noteq> p" "x = tp"
      | (other) "x \<noteq> ?E1" "x \<noteq> ?E2" "x \<noteq> ?TE1" "x \<noteq> ?TE2" "x \<noteq> e" "x \<noteq> t" "x \<noteq> p" "x \<noteq> tp"
      by blast
    then show ?thesis
    proof cases
      case e1
      then show ?thesis using c4 c4 [symmetric] by (simp add: G'_def tt eq_commute [of p e])
    next
      case e2
      then show ?thesis using c4 c4 [symmetric] by (simp add: G'_def tt eq_commute [of p e])
    next
      case te1
      then show ?thesis using c4 c4 [symmetric] by (simp add: G'_def tt eq_commute [of tp t])
    next
      case te2
      show ?thesis
      proof (cases "tp = t")
        case True
        with te2 show ?thesis using c4 c4 [symmetric] by (simp add: G'_def tt eval_nat_numeral)
      next
        case False
        with te2 show ?thesis using c4 c4 [symmetric] False [symmetric] by (simp add: G'_def tt eval_nat_numeral)
      qed
    next
      case dead
      from dead(5) show ?thesis
      proof
        assume "x = e"
        then show ?thesis using c4 d2 by (simp add: G'_def tt eval_nat_numeral)
      next
        assume "x = t"
        then show ?thesis using c4 d2 by (simp add: G'_def tt eval_nat_numeral)
      qed
    next
      case p
      then show ?thesis using d2 c4 by (simp add: G'_def tt eval_nat_numeral)
    next
      case tp
      then show ?thesis using d2 c4 by (simp add: G'_def tt eval_nat_numeral)
    next
      case other
      then show ?thesis by (simp add: G'_def tt eval_nat_numeral)
    qed
  qed
  show ?thesis using res vs fs es by blast
qed


lemma face_edges_loop_returns_chain:
  assumes "face_edges_loop g r c out = Some y"
  shows "\<forall>es. y = Inr es \<longrightarrow> (\<exists>xs. es = out @ xs \<and> hd xs = c \<and> next_chain g r xs)"
proof (rule face_edges_loop.raw_induct
    [where P = "\<lambda>g r c out y. \<forall>es. y = Inr es \<longrightarrow> (\<exists>xs. es = out @ xs \<and> hd xs = c \<and> next_chain g r xs)",
      OF _ assms])
  fix loop g' r' c' out' y'
  assume ih: "\<And>g r c out y. loop g r c out = Some y \<Longrightarrow>
        \<forall>es. y = Inr es \<longrightarrow> (\<exists>xs. es = out @ xs \<and> hd xs = c \<and> next_chain g r xs)"
    and body: "(case props g' c' of
                  Inl err \<Rightarrow> Some (Inl err)
                | Inr p \<Rightarrow> if e_next p \<noteq> r' then loop g' r' (e_next p) (out' @ [c'])
                           else Some (Inr (out' @ [c']))) = Some y'"
  show "\<forall>es. y' = Inr es \<longrightarrow> (\<exists>xs. es = out' @ xs \<and> hd xs = c' \<and> next_chain g' r' xs)"
  proof (intro allI impI)
    fix es assume y: "y' = Inr es"
    with body obtain p where p: "g_edges g' c' = Some p"
      by (auto simp: props_def split: option.splits)
    show "\<exists>xs. es = out' @ xs \<and> hd xs = c' \<and> next_chain g' r' xs"
    proof (cases "e_next p = r'")
      case True
      with body p y have "es = out' @ [c']" by (simp add: props_def)
      moreover have "next_chain g' r' [c']" using p True by simp
      ultimately show ?thesis by (intro exI [of _ "[c']"]) simp
    next
      case False
      with body p have "loop g' r' (e_next p) (out' @ [c']) = Some y'" by (simp add: props_def)
      from ih [OF this] y obtain xs where xs: "es = (out' @ [c']) @ xs" "hd xs = e_next p"
        "next_chain g' r' xs" by blast
      then have "xs \<noteq> []" by (auto dest: next_chain_nonempty)
      with xs p False have "next_chain g' r' (c' # xs)" by (simp add: next_chain_Cons)
      with xs show ?thesis by (intro exI [of _ "c' # xs"]) simp
    qed
  qed
qed

lemma face_edges_boundary:
  assumes "face_edges g f = Some (Inr es)"
  shows "f < length (faces g) \<and> hd es = f_edge (faces g ! f) \<and> next_chain g (f_edge (faces g ! f)) es"
proof -
  from assms have f: "f < length (faces g)"
    by (auto simp: face_edges_def face_props_def split: if_splits)
  with assms have "face_edges_loop g (f_edge (faces g ! f)) (f_edge (faces g ! f)) [] = Some (Inr es)"
    by (simp add: face_edges_def face_props_def)
  from face_edges_loop_returns_chain [OF this] f show ?thesis by auto
qed

lemma next_chain_suffix:
  "next_chain g r (as @ bs) \<Longrightarrow> bs \<noteq> [] \<Longrightarrow> next_chain g r bs"
proof (induction as)
  case Nil
  then show ?case by simp
next
  case (Cons a as)
  then have "as @ bs \<noteq> []" by simp
  with Cons.prems(1) have "next_chain g r (as @ bs)" by (auto simp: next_chain_Cons)
  with Cons show ?case by simp
qed

lemma next_chain_distinct:
  "next_chain g r xs \<Longrightarrow> distinct xs"
proof (induction xs)
  case Nil
  then show ?case by simp
next
  case (Cons x ys)
  show ?case
  proof (cases ys)
    case Nil
    then show ?thesis by simp
  next
    case (Cons y zs)
    with Cons.prems have ch: "next_chain g r ys" by (auto simp: next_chain_Cons)
    with Cons.IH have d: "distinct ys" by simp
    have "x \<notin> set ys"
    proof
      assume "x \<in> set ys"
      then obtain as bs where sp: "ys = as @ x # bs" by (meson split_list)
      have sub: "next_chain g r (x # bs)"
        using next_chain_suffix [of g r as "x # bs"] ch sp by simp
      from next_chain_steps [OF sub] have s1: "steps g (Suc (length bs)) x = Some r"
        by (simp del: steps.simps)
      have "Suc (length bs) < length (x # ys)" using sp by simp
      with next_chain_steps [OF Cons.prems]
      have "steps g (Suc (length bs)) (hd (x # ys)) = Some ((x # ys) ! Suc (length bs))" by blast
      then have s2: "steps g (Suc (length bs)) x = Some ((x # ys) ! Suc (length bs))"
        by (simp del: steps.simps nth_Cons_Suc)
      have "length bs < length ys" using sp by simp
      then have "(x # ys) ! Suc (length bs) \<in> set ys" by simp
      moreover have "r \<notin> set ys" using next_chain_not_start [OF Cons.prems] by simp
      ultimately show False using s1 s2 by auto
    qed
    with d show ?thesis by simp
  qed
qed

lemma next_chain_append:
  "next_chain g r' as \<Longrightarrow> bs \<noteq> [] \<Longrightarrow> r' = hd bs \<Longrightarrow> next_chain g r bs \<Longrightarrow>
     r \<notin> set as \<or> (hd as = r \<and> r \<notin> set (tl as)) \<Longrightarrow> r \<noteq> hd bs \<Longrightarrow> next_chain g r (as @ bs)"
proof (induction g r' as rule: next_chain.induct)
  case (1 g r')
  then show ?case by simp
next
  case (2 g r' x)
  then show ?case by (cases bs) (auto split: option.splits)
next
  case (3 g r' x y zs)
  then obtain p where p: "g_edges g x = Some p" "e_next p = y" "y \<noteq> r'" "next_chain g r' (y # zs)"
    by (auto split: option.splits)
  from "3.prems"(5) have yr: "y \<noteq> r" "r \<notin> set (y # zs)" by auto
  from "3.IH" [OF p(1)] p "3.prems" yr have "next_chain g r ((y # zs) @ bs)" by simp
  with p yr show ?case by simp
qed

lemma next_chain_prefix:
  "next_chain g r (as @ x # bs) \<Longrightarrow> as \<noteq> [] \<Longrightarrow> distinct (as @ x # bs) \<Longrightarrow> next_chain g x as"
proof (induction as)
  case Nil
  then show ?case by simp
next
  case (Cons a as)
  show ?case
  proof (cases as)
    case Nil
    with Cons.prems show ?thesis by (auto split: option.splits)
  next
    case (Cons b as')
    with Cons.prems(1) obtain p where p: "g_edges g a = Some p" "e_next p = b"
      "next_chain g r (as @ x # bs)"
      by (auto split: option.splits)
    from Cons.IH [OF p(3)] Cons Cons.prems(3) have "next_chain g x as" by simp
    moreover have "b \<noteq> x" using Cons Cons.prems(3) by auto
    ultimately show ?thesis using p Cons by simp
  qed
qed

text \<open>The boundary of a face, read from any of its edges.\<close>

lemma next_chain_rotate:
  assumes "next_chain g r (as @ x # bs)" "hd (as @ x # bs) = r"
  shows "next_chain g x (x # bs @ as)"
proof (cases as)
  case Nil
  with assms show ?thesis by simp
next
  case (Cons a as')
  with assms have a: "a = r" by simp
  have d: "distinct (as @ x # bs)" using next_chain_distinct [OF assms(1)] .
  have rear: "next_chain g r (x # bs)" using next_chain_suffix [OF assms(1)] by simp
  have front: "next_chain g x as"
    using next_chain_prefix [OF assms(1) _ d] Cons by simp
  have "next_chain g x ((x # bs) @ as)"
  proof (rule next_chain_append [OF rear _ _ front])
    show "as \<noteq> []" using Cons by simp
    show "r = hd as" using Cons a by simp
    show "x \<notin> set (x # bs) \<or> hd (x # bs) = x \<and> x \<notin> set (tl (x # bs))" using d by simp
    show "x \<noteq> hd as" using d Cons by auto
  qed
  then show ?thesis by simp
qed

text \<open>
  \<open>previous_edge\<close>, when it returns, returns an edge whose \<open>next\<close> is \<open>e\<close>; it returns \<open>e\<close>
  itself exactly when \<open>e\<close> is its own \<open>next\<close>.
\<close>

lemma previous_edge_loop_returns_predecessor:
  assumes "previous_edge_loop g e c = Some y"
  shows "\<forall>p. y = Inr p \<longrightarrow> get_next g p = Inr e"
proof (rule previous_edge_loop.raw_induct
    [where P = "\<lambda>g e c y. \<forall>p. y = Inr p \<longrightarrow> get_next g p = Inr e", OF _ assms])
  fix loop g' e' c' y'
  assume ih: "\<And>g e c y. loop g e c = Some y \<Longrightarrow> \<forall>p. y = Inr p \<longrightarrow> get_next g p = Inr e"
    and body: "(case props g' c' of
                  Inl err \<Rightarrow> Some (Inl err)
                | Inr p \<Rightarrow> if e_next p \<noteq> e' then loop g' e' (e_next p) else Some (Inr c')) = Some y'"
  show "\<forall>p. y' = Inr p \<longrightarrow> get_next g' p = Inr e'"
  proof (cases "props g' c'")
    case (Inl err)
    with body show ?thesis by auto
  next
    case (Inr q)
    show ?thesis
    proof (cases "e_next q = e'")
      case True
      with body Inr show ?thesis by (auto simp: get_next_def bindE_def)
    next
      case False
      with body Inr have "loop g' e' (e_next q) = Some y'" by simp
      from ih [OF this] show ?thesis .
    qed
  qed
qed

lemma previous_edge_self:
  assumes "previous_edge g e = Some (Inr p)" "get_next g e = Inr ne"
  shows "p = e \<longleftrightarrow> ne = e"
proof -
  from assms(2) obtain pe where pe: "props g e = Inr pe" "e_next pe = ne"
    by (cases "props g e") (auto simp: get_next_def bindE_def)
  with assms(1) have loop: "previous_edge_loop g e ne = Some (Inr p)"
    by (simp add: previous_edge_def)
  show ?thesis
  proof
    assume "p = e"
    with previous_edge_loop_returns_predecessor [OF loop] have "get_next g e = Inr e" by simp
    with assms(2) show "ne = e" by simp
  next
    assume "ne = e"
    with loop pe show "p = e"
      by (subst (asm) previous_edge_loop.simps) simp
  qed
qed

text \<open>
  C1, as the code has it. \<open>insert_vertex_in_edge(v, e)\<close> on an edge \<open>e\<close> with twin \<open>t\<close>, where
  \<open>source(e) == target(t)\<close> and \<open>target(e) == source(t)\<close>, \<open>e\<close> and \<open>t\<close> lie on two
  different faces \<open>f\<close> and \<open>tf\<close> of the table, the boundaries through \<open>e\<close> and \<open>t\<close> are closed
  (\<open>previous_edge\<close> returns \<open>p\<close> for \<open>e\<close> and \<open>tp\<close> for \<open>t\<close>, with the faces the function
  asserts), and \<open>v\<close> and the endpoints are vertices of the graph. The call returns; the
  new edges \<open>e1 = source(e)->v\<close>, \<open>e2 = v->target(e)\<close>, \<open>te1 = source(t)->v\<close>,
  \<open>te2 = v->target(t)\<close> are twinned crosswise, \<open>e1\<close> and \<open>e2\<close> have the face of \<open>e\<close>, \<open>te1\<close>
  and \<open>te2\<close> the face of \<open>t\<close>, \<open>next(e1) == e2\<close>, \<open>next(te1) == te2\<close>, the representative
  edges of the two faces are \<open>e1\<close> and \<open>te1\<close>, and \<open>e\<close> and \<open>t\<close> are removed.
  When the old \<open>next(e)\<close> is another edge, \<open>p\<close> is another edge too, \<open>next(p) == e1\<close> and
  \<open>next(e2)\<close> is the old \<open>next(e)\<close>. When \<open>e\<close> is its own \<open>next\<close>, the whole boundary of
  its face, \<open>p\<close> is \<open>e\<close> itself, which the call removes, and \<open>next(e2) == e1\<close>: the function
  reads \<open>g[e].next\<close> after it has written \<open>g[previous].next = e1\<close>, and the boundary of the
  face becomes \<open>e1\<close>, \<open>e2\<close>. The same holds on the side of the twin.
\<close>

theorem insert_vertex_in_edge_relinks:
  assumes ids: "\<forall>x \<in> dom (g_edges g). eid x < g_next_id g"
    and twin: "get_twin g e = Inr t"
    and ends: "source g e = target g t" "target g e = source g t"
    and verts: "v \<in> set (g_vertices g)" "source g e \<in> set (g_vertices g)"
      "target g e \<in> set (g_vertices g)"
    and fcs: "get_face g e = Inr f" "get_face g t = Inr tf" "f \<noteq> tf"
      "f < length (faces g)" "tf < length (faces g)"
    and nxt: "get_next g e = Inr ne" "get_next g t = Inr nt"
    and prev: "previous_edge g e = Some (Inr p)" "previous_edge g t = Some (Inr tp)"
    and pf: "get_face g p = Inr f" "get_face g tp = Inr tf"
    and new: "e1 = Edge (source g e) v (g_next_id g)" "e2 = Edge v (target g e) (g_next_id g + 1)"
      "te1 = Edge (source g t) v (g_next_id g + 2)" "te2 = Edge v (target g t) (g_next_id g + 3)"
  shows "\<exists>g'. insert_vertex_in_edge dp g v e = Some (Inr g')
     \<and> get_twin g' e1 = Inr te2 \<and> get_twin g' te2 = Inr e1
     \<and> get_twin g' e2 = Inr te1 \<and> get_twin g' te1 = Inr e2
     \<and> get_face g' e1 = Inr f \<and> get_face g' e2 = Inr f
     \<and> get_face g' te1 = Inr tf \<and> get_face g' te2 = Inr tf
     \<and> get_next g' e1 = Inr e2 \<and> get_next g' te1 = Inr te2
     \<and> (if ne = e then p = e \<and> get_next g' e2 = Inr e1
         else p \<noteq> e \<and> get_next g' p = Inr e1 \<and> get_next g' e2 = Inr ne)
     \<and> (if nt = t then tp = t \<and> get_next g' te2 = Inr te1
         else tp \<noteq> t \<and> get_next g' tp = Inr te1 \<and> get_next g' te2 = Inr nt)
     \<and> f_edge (faces g' ! f) = e1 \<and> f_edge (faces g' ! tf) = te1
     \<and> e \<notin> dom (g_edges g') \<and> t \<notin> dom (g_edges g')"
proof -
  from twin fcs(1) nxt(1) obtain pe where pe: "g_edges g e = Some pe" "e_twin pe = t" "e_face pe = f"
    "e_next pe = ne"
    by (auto simp: get_twin_def get_face_def get_next_def props_def bindE_def split: option.splits)
  from fcs(2) nxt(2) obtain pt where pt: "g_edges g t = Some pt" "e_face pt = tf" "e_next pt = nt"
    by (auto simp: get_face_def get_next_def props_def bindE_def split: option.splits)
  from pf(1) obtain pp where pp: "g_edges g p = Some pp" "e_face pp = f"
    by (auto simp: get_face_def props_def bindE_def split: option.splits)
  from pf(2) obtain ptp where ptp: "g_edges g tp = Some ptp" "e_face ptp = tf"
    by (auto simp: get_face_def props_def bindE_def split: option.splits)
  have d: "p \<noteq> t" "tp \<noteq> e" "p \<noteq> tp" "e \<noteq> t"
    using pe pt pp ptp fcs(3) by auto
  have self: "p = e \<longleftrightarrow> ne = e" "tp = t \<longleftrightarrow> nt = t"
    using previous_edge_self [OF prev(1) nxt(1)] previous_edge_self [OF prev(2) nxt(2)] by simp_all
  note fresh = old_edge_not_new [OF ids]
  have en: "src_of t = trg_of e" "trg_of t = src_of e"
    using ends by (simp_all add: source_def target_def)
  from insert_vertex_in_edge_result [of g e pe pt v p tp pp ptp dp] ids pe pt pp ptp ends verts fcs prev
  obtain g' where g': "insert_vertex_in_edge dp g v e = Some (Inr g')"
    "faces g' = (faces g)[f := (faces g ! f)\<lparr>f_edge := Edge (src_of e) v (g_next_id g)\<rparr>,
                           tf := (faces g ! tf)\<lparr>f_edge := Edge (trg_of e) v (g_next_id g + 2)\<rparr>]"
    "\<And>x. g_edges g' x =
          (if x = Edge (src_of e) v (g_next_id g)
           then Some (dp\<lparr>e_twin := Edge v (src_of e) (g_next_id g + 3),
                          e_next := Edge v (trg_of e) (g_next_id g + 1), e_face := f\<rparr>)
           else if x = Edge v (trg_of e) (g_next_id g + 1)
           then Some (dp\<lparr>e_twin := Edge (trg_of e) v (g_next_id g + 2),
                          e_next := (if p = e then Edge (src_of e) v (g_next_id g) else ne),
                          e_face := f\<rparr>)
           else if x = Edge (trg_of e) v (g_next_id g + 2)
           then Some (dp\<lparr>e_twin := Edge v (trg_of e) (g_next_id g + 1),
                          e_next := Edge v (src_of e) (g_next_id g + 3), e_face := tf\<rparr>)
           else if x = Edge v (src_of e) (g_next_id g + 3)
           then Some (dp\<lparr>e_twin := Edge (src_of e) v (g_next_id g),
                          e_next := (if tp = t then Edge (trg_of e) v (g_next_id g + 2) else nt),
                          e_face := tf\<rparr>)
           else if x = e \<or> x = t then None
           else if x = p then Some (pp\<lparr>e_next := Edge (src_of e) v (g_next_id g)\<rparr>)
           else if x = tp then Some (ptp\<lparr>e_next := Edge (trg_of e) v (g_next_id g + 2)\<rparr>)
           else g_edges g x)"
    by (auto simp: source_def target_def)
  have new': "e1 = Edge (src_of e) v (g_next_id g)" "e2 = Edge v (trg_of e) (g_next_id g + 1)"
      "te1 = Edge (trg_of e) v (g_next_id g + 2)" "te2 = Edge v (src_of e) (g_next_id g + 3)"
    using new en by (simp_all add: source_def target_def)
  have n: "e1 \<noteq> e2" "e1 \<noteq> te1" "e1 \<noteq> te2" "e2 \<noteq> te1" "e2 \<noteq> te2" "te1 \<noteq> te2"
    "p \<noteq> e1" "p \<noteq> e2" "p \<noteq> te1" "p \<noteq> te2" "tp \<noteq> e1" "tp \<noteq> e2" "tp \<noteq> te1" "tp \<noteq> te2"
    "e \<noteq> e1" "e \<noteq> e2" "e \<noteq> te1" "e \<noteq> te2" "t \<noteq> e1" "t \<noteq> e2" "t \<noteq> te1" "t \<noteq> te2"
    using fresh(1) [OF pp(1)] fresh(1) [OF ptp(1)] fresh(1) [OF pe(1)] fresh(1) [OF pt(1)]
    by (simp_all add: new')
  have l1: "g_edges g' e1 = Some (dp\<lparr>e_twin := te2, e_next := e2, e_face := f\<rparr>)"
    using g'(3) [of e1] by (simp add: new')
  have l2: "g_edges g' e2 = Some (dp\<lparr>e_twin := te1, e_next := (if ne = e then e1 else ne), e_face := f\<rparr>)"
    using g'(3) [of e2] self by (simp add: new')
  have l3: "g_edges g' te1 = Some (dp\<lparr>e_twin := e2, e_next := te2, e_face := tf\<rparr>)"
    using g'(3) [of te1] by (simp add: new')
  have l4: "g_edges g' te2 = Some (dp\<lparr>e_twin := e1, e_next := (if nt = t then te1 else nt), e_face := tf\<rparr>)"
    using g'(3) [of te2] self by (simp add: new')
  have l5: "g_edges g' p = Some (pp\<lparr>e_next := e1\<rparr>)" if "p \<noteq> e"
    using g'(3) [of p] that d n [unfolded new'] by (simp add: new')
  have l6: "g_edges g' tp = Some (ptp\<lparr>e_next := te1\<rparr>)" if "tp \<noteq> t"
    using g'(3) [of tp] that d n [unfolded new'] by (simp add: new')
  have l7: "g_edges g' e = None" "g_edges g' t = None"
    using g'(3) [of e] g'(3) [of t] n [unfolded new'] by simp_all
  have r1: "f_edge (faces g' ! f) = e1" "f_edge (faces g' ! tf) = te1"
    using g'(2) fcs by (simp_all add: new')
  have side: "if ne = e then p = e \<and> get_next g' e2 = Inr e1
         else p \<noteq> e \<and> get_next g' p = Inr e1 \<and> get_next g' e2 = Inr ne"
    using self(1) l2 l5 by (simp add: get_next_def props_def bindE_def)
  have tside: "if nt = t then tp = t \<and> get_next g' te2 = Inr te1
         else tp \<noteq> t \<and> get_next g' tp = Inr te1 \<and> get_next g' te2 = Inr nt"
    using self(2) l4 l6 by (simp add: get_next_def props_def bindE_def)
  have rest: "get_twin g' e1 = Inr te2" "get_twin g' te2 = Inr e1"
     "get_twin g' e2 = Inr te1" "get_twin g' te1 = Inr e2"
     "get_face g' e1 = Inr f" "get_face g' e2 = Inr f"
     "get_face g' te1 = Inr tf" "get_face g' te2 = Inr tf"
     "get_next g' e1 = Inr e2" "get_next g' te1 = Inr te2"
    using l1 l2 l3 l4 by (simp_all add: get_twin_def get_face_def get_next_def props_def bindE_def)
  have gone: "e \<notin> dom (g_edges g')" "t \<notin> dom (g_edges g')"
    using l7 by (simp_all add: dom_def)
  from g'(1) rest side tside r1 gone show ?thesis by blast
qed


lemma triangle_ids: "\<forall>x \<in> dom (g_edges triangle). eid x < g_next_id triangle"
  by (auto simp: triangle_def edge_defs dom_def split: if_splits)

lemma triangle_previous:
  "previous_edge triangle e01 = Some (Inr e20)" "previous_edge triangle e10 = Some (Inr e21)"
proof -
  have "next_chain triangle e01 [e01, e12, e20]" "next_chain triangle e10 [e10, e02, e21]"
    by (simp_all add: triangle_def edge_defs)
  from previous_edge_cycle [OF this(1)] previous_edge_cycle [OF this(2)]
  show "previous_edge triangle e01 = Some (Inr e20)" "previous_edge triangle e10 = Some (Inr e21)"
    by simp_all
qed

theorem insert_vertex_in_edge_relinks_witness:
  "\<exists>g'. insert_vertex_in_edge blank_edge triangle 3 e01 = Some (Inr g')
     \<and> get_twin g' (Edge 0 3 6) = Inr (Edge 3 0 9) \<and> get_twin g' (Edge 3 0 9) = Inr (Edge 0 3 6)
     \<and> get_twin g' (Edge 3 1 7) = Inr (Edge 1 3 8) \<and> get_twin g' (Edge 1 3 8) = Inr (Edge 3 1 7)
     \<and> get_face g' (Edge 0 3 6) = Inr 0 \<and> get_face g' (Edge 3 1 7) = Inr 0
     \<and> get_face g' (Edge 1 3 8) = Inr 1 \<and> get_face g' (Edge 3 0 9) = Inr 1
     \<and> get_next g' e20 = Inr (Edge 0 3 6) \<and> get_next g' (Edge 0 3 6) = Inr (Edge 3 1 7)
     \<and> get_next g' (Edge 3 1 7) = Inr e12
     \<and> get_next g' e21 = Inr (Edge 1 3 8) \<and> get_next g' (Edge 1 3 8) = Inr (Edge 3 0 9)
     \<and> get_next g' (Edge 3 0 9) = Inr e02
     \<and> f_edge (faces g' ! 0) = Edge 0 3 6 \<and> f_edge (faces g' ! 1) = Edge 1 3 8
     \<and> e01 \<notin> dom (g_edges g') \<and> e10 \<notin> dom (g_edges g')"
proof -
  have acc: "get_twin triangle e01 = Inr e10" "get_face triangle e01 = Inr 0"
    "get_face triangle e10 = Inr 1" "get_next triangle e01 = Inr e12"
    "get_next triangle e10 = Inr e02" "get_face triangle e20 = Inr 0" "get_face triangle e21 = Inr 1"
    by (simp_all add: get_twin_def get_face_def get_next_def props_def bindE_def triangle_def edge_defs)
  have ends: "source triangle e01 = target triangle e10" "target triangle e01 = source triangle e10"
    by (simp_all add: source_def target_def edge_defs)
  have verts: "3 \<in> set (g_vertices triangle)" "source triangle e01 \<in> set (g_vertices triangle)"
    "target triangle e01 \<in> set (g_vertices triangle)"
    by (simp_all add: source_def target_def edge_defs triangle_def)
  have fcs: "(0::nat) \<noteq> 1" "0 < length (faces triangle)" "1 < length (faces triangle)"
    by (simp_all add: triangle_def)
  have two: "e12 \<noteq> e01" "e02 \<noteq> e10" by (simp_all add: edge_defs)
  have new: "Edge 0 3 6 = Edge (source triangle e01) 3 (g_next_id triangle)"
    "Edge 3 1 7 = Edge 3 (target triangle e01) (g_next_id triangle + 1)"
    "Edge 1 3 8 = Edge (source triangle e10) 3 (g_next_id triangle + 2)"
    "Edge 3 0 9 = Edge 3 (target triangle e10) (g_next_id triangle + 3)"
    by (simp_all add: source_def target_def edge_defs triangle_def)
  from insert_vertex_in_edge_relinks [OF triangle_ids acc(1) ends verts acc(2,3) fcs acc(4,5)
          triangle_previous acc(6,7) new, of blank_edge] two
  show ?thesis by auto
qed

lemma loops_ids: "\<forall>x \<in> dom (g_edges loops). eid x < g_next_id loops"
  by (auto simp: loops_def l0_def l1_def dom_def split: if_splits)

lemma loops_previous:
  "previous_edge loops l0 = Some (Inr l0)" "previous_edge loops l1 = Some (Inr l1)"
proof -
  have "next_chain loops l0 [l0]" "next_chain loops l1 [l1]"
    by (simp_all add: loops_def l0_def l1_def)
  from previous_edge_cycle [OF this(1)] previous_edge_cycle [OF this(2)]
  show "previous_edge loops l0 = Some (Inr l0)" "previous_edge loops l1 = Some (Inr l1)"
    by simp_all
qed

text \<open>
  An edge that is alone on its boundary: in \<open>loops\<close> the twins \<open>l0\<close> and \<open>l1\<close> have mirrored
  endpoints, the call returns, and \<open>next(e2)\<close> is \<open>e1\<close>, not the old \<open>next(l0)\<close>, which is
  the removed \<open>l0\<close>.
\<close>

theorem insert_vertex_in_edge_alone_on_boundary_counterexample:
  "get_twin loops l0 = Inr l1
   \<and> source loops l0 = target loops l1 \<and> target loops l0 = source loops l1
   \<and> get_next loops l0 = Inr l0
   \<and> (\<exists>g'. insert_vertex_in_edge blank_edge loops 1 l0 = Some (Inr g')
          \<and> get_next g' (Edge 1 0 3) = Inr (Edge 0 1 2)
          \<and> get_next g' (Edge 1 0 3) \<noteq> get_next loops l0)"
proof -
  let ?pe = "\<lparr>e_twin = l1, e_next = l0, e_face = 0, e_k = 0\<rparr>"
  let ?pt = "\<lparr>e_twin = l0, e_next = l1, e_face = 1, e_k = 0\<rparr>"
  have e: "g_edges loops l0 = Some ?pe" by (simp add: loops_def l0_def l1_def)
  have t: "g_edges loops (e_twin ?pe) = Some ?pt" by (simp add: loops_def l0_def l1_def)
  have ends: "src_of l0 = trg_of (e_twin ?pe)" "trg_of l0 = src_of (e_twin ?pe)"
    by (simp_all add: l0_def l1_def)
  have verts: "1 \<in> set (g_vertices loops)" "src_of l0 \<in> set (g_vertices loops)"
    "trg_of l0 \<in> set (g_vertices loops)"
    by (simp_all add: loops_def l0_def)
  have fcs: "e_face ?pe < length (faces loops)" "e_face ?pt < length (faces loops)"
    "e_face ?pe \<noteq> e_face ?pt"
    by (simp_all add: loops_def)
  have prev: "previous_edge loops l0 = Some (Inr l0)" "previous_edge loops (e_twin ?pe) = Some (Inr l1)"
    using loops_previous by simp_all
  have p: "g_edges loops l0 = Some ?pe" "e_face ?pe = e_face ?pe" by (simp_all add: e)
  have tp: "g_edges loops l1 = Some ?pt" "e_face ?pt = e_face ?pt" using t by simp_all
  from insert_vertex_in_edge_result [OF loops_ids e t ends verts fcs prev p tp, of blank_edge]
  obtain g' where g': "insert_vertex_in_edge blank_edge loops 1 l0 = Some (Inr g')"
    "g_edges g' (Edge 1 0 3) =
       Some (blank_edge\<lparr>e_twin := Edge 0 1 4, e_next := Edge 0 1 2, e_face := 0\<rparr>)"
    by (auto simp: loops_def l0_def l1_def eval_nat_numeral)
  have a: "get_twin loops l0 = Inr l1" "get_next loops l0 = Inr l0"
    by (simp_all add: get_twin_def get_next_def props_def bindE_def loops_def l0_def l1_def)
  have b: "source loops l0 = target loops l1" "target loops l0 = source loops l1"
    by (simp_all add: source_def target_def l0_def l1_def)
  from g'(2) have c: "get_next g' (Edge 1 0 3) = Inr (Edge 0 1 2)"
    by (simp add: get_next_def props_def bindE_def)
  have "get_next g' (Edge 1 0 3) \<noteq> get_next loops l0"
    unfolding c a(2) by (simp add: l0_def)
  with g'(1) a b c show ?thesis by blast
qed

lemma antenna_previous:
  "previous_edge antenna b01 = Some (Inr b10)" "previous_edge antenna b10 = Some (Inr b01)"
proof -
  have "next_chain antenna b01 [b01, b10]" "next_chain antenna b10 [b10, b01]"
    by (simp_all add: antenna_def b01_def b10_def)
  from previous_edge_cycle [OF this(1)] previous_edge_cycle [OF this(2)]
  show "previous_edge antenna b01 = Some (Inr b10)" "previous_edge antenna b10 = Some (Inr b01)"
    by simp_all
qed

text \<open>
  The two faces have to differ. In \<open>antenna\<close> the edge \<open>b01\<close> and its twin \<open>b10\<close> lie on the
  same face 0, each the \<open>next\<close> of the other. The call returns; the representative edge of
  the face is \<open>te1\<close>, written last, and \<open>next(e2)\<close> is the old \<open>next(b01)\<close>, the twin that
  the call removes.
\<close>

lemma insert_vertex_in_edge_same_face:
  "get_twin antenna b01 = Inr b10 \<and> get_face antenna b01 = Inr 0 \<and> get_face antenna b10 = Inr 0
   \<and> (\<exists>g'. insert_vertex_in_edge blank_edge antenna 2 b01 = Some (Inr g')
          \<and> f_edge (faces g' ! 0) = Edge 1 2 4
          \<and> get_next g' (Edge 2 1 3) = Inr b10 \<and> b10 \<notin> dom (g_edges g'))"
proof -
  have p: "previous_edge antenna (Edge 0 1 0) = Some (Inr (Edge 1 0 1))"
     "previous_edge antenna (Edge 1 0 1) = Some (Inr (Edge 0 1 0))"
    using antenna_previous by (simp_all add: b01_def b10_def)
  have "\<exists>g'. insert_vertex_in_edge blank_edge antenna 2 (Edge 0 1 0) = Some (Inr g')
          \<and> f_edge (faces g' ! 0) = Edge 1 2 4
          \<and> get_next g' (Edge 2 1 3) = Inr (Edge 1 0 1) \<and> Edge 1 0 1 \<notin> dom (g_edges g')"
    using p unfolding insert_vertex_in_edge_def
    by (simp add: bindR_def bindE_def get_twin_def get_face_def get_next_def props_def assert_def
        source_def target_def add_edge_def set_face_def set_next_field_def set_twin_def
        update_props_def set_face_edge_def face_props_def remove_edge_def
        antenna_def b01_def b10_def blank_edge_def)
  moreover have "get_twin antenna b01 = Inr b10" "get_face antenna b01 = Inr 0" "get_face antenna b10 = Inr 0"
    by (simp_all add: get_twin_def get_face_def props_def bindE_def antenna_def b01_def b10_def)
  ultimately show ?thesis by (simp add: b01_def b10_def)
qed

lemma next_chain_transfer:
  assumes "next_chain g r xs" "\<forall>x \<in> set (butlast xs). g_edges g' x = g_edges g x"
    "g_edges g (last xs) = Some pl" "g_edges g' (last xs) = Some (pl\<lparr>e_next := r'\<rparr>)"
    "r' \<notin> set xs"
  shows "next_chain g' r' xs"
  using assms
proof (induction g r xs rule: next_chain.induct)
  case (1 g r)
  then show ?case by simp
next
  case (2 g r x)
  then show ?case by simp
next
  case (3 g r x y zs)
  then obtain p where p: "g_edges g x = Some p" "e_next p = y" "next_chain g r (y # zs)"
    by (auto split: option.splits)
  have "next_chain g' r' (y # zs)"
    using "3.IH" [OF p(1)] p "3.prems" by simp
  moreover have "g_edges g' x = Some p" using "3.prems"(2) p by simp
  moreover have "y \<noteq> r'" using "3.prems"(5) by auto
  ultimately show ?case using p by simp
qed

text \<open>
  The boundary after the split: the two new edges \<open>n1\<close>, \<open>n2\<close> followed by the old
  boundary of \<open>x\<close> without \<open>x\<close>.
\<close>

lemma split_boundary:
  assumes ch: "next_chain g x (x # ys)"
    and n1: "g_edges g' n1 = Some q1" "e_next q1 = n2"
    and n2: "g_edges g' n2 = Some q2" "e_next q2 = (if ys = [] then n1 else hd ys)"
    and ne: "n1 \<noteq> n2" "n1 \<notin> set ys"
    and same: "\<forall>y \<in> set (butlast ys). g_edges g' y = g_edges g y"
    and lst: "ys \<noteq> [] \<longrightarrow> (\<exists>pl. g_edges g (last ys) = Some pl \<and> g_edges g' (last ys) = Some (pl\<lparr>e_next := n1\<rparr>))"
  shows "next_chain g' n1 (n1 # n2 # ys)"
proof (cases ys)
  case Nil
  with n1 n2 ne show ?thesis by simp
next
  case (Cons y zs)
  with ch have sub: "next_chain g x ys" by (auto split: option.splits)
  from lst Cons obtain pl where pl: "g_edges g (last ys) = Some pl"
    "g_edges g' (last ys) = Some (pl\<lparr>e_next := n1\<rparr>)" by auto
  have "next_chain g' n1 ys"
    by (rule next_chain_transfer [OF sub same pl ne(2)])
  moreover have "y \<noteq> n1" using ne(2) Cons by auto
  ultimately show ?thesis using n1 n2 ne Cons by simp
qed


lemma side_boundary:
  assumes bnd: "face_edges g f = Some (Inr es)" "x \<in> set es"
    and x: "g_edges g x = Some px"
    and prev: "previous_edge g x = Some (Inr p)"
    and n1: "g_edges g' n1 = Some q1" "e_next q1 = n2"
    and n2: "g_edges g' n2 = Some q2" "e_next q2 = (if p = x then n1 else e_next px)"
    and ne: "n1 \<noteq> n2" "n1 \<notin> set es"
    and lst: "p \<noteq> x \<longrightarrow> (\<exists>pp. g_edges g p = Some pp \<and> g_edges g' p = Some (pp\<lparr>e_next := n1\<rparr>))"
    and frame: "\<forall>y \<in> set es. y \<noteq> x \<longrightarrow> y \<noteq> p \<longrightarrow> g_edges g' y = g_edges g y"
  shows "\<exists>ys. next_chain g' n1 (n1 # n2 # ys) \<and> Suc (length ys) = length es"
proof -
  from face_edges_boundary [OF bnd(1)]
  have ch: "next_chain g (f_edge (faces g ! f)) es" "hd es = f_edge (faces g ! f)" by simp_all
  from bnd(2) obtain as bs where sp: "es = as @ x # bs" by (meson split_list)
  define ys where "ys = bs @ as"
  have rot: "next_chain g x (x # ys)"
    using next_chain_rotate [of g "f_edge (faces g ! f)" as x bs] ch sp by (simp add: ys_def)
  have d: "distinct (x # ys)" using next_chain_distinct [OF rot] .
  have sub: "set ys \<subseteq> set es" by (auto simp: ys_def sp)
  have "previous_edge g x = Some (Inr (last (x # ys)))"
    using previous_edge_cycle [OF rot] by simp
  with prev have p: "p = last (x # ys)" by simp
  have q2: "e_next q2 = (if ys = [] then n1 else hd ys)"
  proof (cases ys)
    case Nil
    with p n2(2) show ?thesis by simp
  next
    case (Cons y zs)
    with p d have "p \<noteq> x" by (metis distinct.simps(2) last_ConsR last_in_set list.distinct(1))
    moreover from rot Cons x have "e_next px = y" by simp
    ultimately show ?thesis using n2(2) Cons by simp
  qed
  have same: "\<forall>y \<in> set (butlast ys). g_edges g' y = g_edges g y"
  proof
    fix y assume y: "y \<in> set (butlast ys)"
    then have "y \<in> set ys" by (meson in_set_butlastD)
    moreover from this d have "y \<noteq> x" by auto
    moreover have "y \<noteq> p"
    proof -
      from y have ne: "ys \<noteq> []" by auto
      then have "ys = butlast ys @ [last ys]" by simp
      with d have "last ys \<notin> set (butlast ys)"
        by (metis distinct.simps(2) distinct_append disjoint_iff list.set_intros(1))
      with y p ne show ?thesis by auto
    qed
    ultimately show "g_edges g' y = g_edges g y" using frame sub by blast
  qed
  have last_upd: "ys \<noteq> [] \<longrightarrow>
      (\<exists>pl. g_edges g (last ys) = Some pl \<and> g_edges g' (last ys) = Some (pl\<lparr>e_next := n1\<rparr>))"
  proof
    assume ne: "ys \<noteq> []"
    with p have pl: "p = last ys" by simp
    with ne d have "p \<noteq> x" by (metis distinct.simps(2) last_in_set)
    with lst pl show "\<exists>pl. g_edges g (last ys) = Some pl \<and> g_edges g' (last ys) = Some (pl\<lparr>e_next := n1\<rparr>)"
      by simp
  qed
  have "n1 \<notin> set ys" using ne(2) sub by auto
  from split_boundary [OF rot n1 n2(1) q2 ne(1) this same last_upd]
  have "next_chain g' n1 (n1 # n2 # ys)" .
  moreover have "Suc (length ys) = length es" by (simp add: ys_def sp)
  ultimately show ?thesis by blast
qed


lemma boundary_previous:
  assumes "face_edges g f = Some (Inr es)" "x \<in> set es"
  shows "\<exists>p. previous_edge g x = Some (Inr p) \<and> p \<in> set es"
proof -
  from face_edges_boundary [OF assms(1)]
  have ch: "next_chain g (f_edge (faces g ! f)) es" "hd es = f_edge (faces g ! f)" by simp_all
  from assms(2) obtain as bs where sp: "es = as @ x # bs" by (meson split_list)
  have rot: "next_chain g x (x # bs @ as)"
    using next_chain_rotate [of g "f_edge (faces g ! f)" as x bs] ch sp by simp
  have "previous_edge g x = Some (Inr (last (x # bs @ as)))"
    using previous_edge_cycle [OF rot] by simp
  moreover have "last (x # bs @ as) \<in> set es"
    unfolding sp by (metis last_in_set list.distinct(1) set_append Un_commute append_Cons)
  ultimately show ?thesis by blast
qed

text \<open>
  C2, as the code has it. \<open>insert_vertex_in_edge(v, e)\<close> on an edge \<open>e\<close> with twin \<open>t\<close>
  (endpoints mirrored, vertices of the graph), where \<open>e\<close> is on the boundary \<open>es\<close> of its
  face \<open>f\<close> and \<open>t\<close> on the boundary \<open>ts\<close> of its face \<open>tf\<close>, two different faces whose
  boundary edges carry their face: the call returns, the boundary of \<open>f\<close> has one edge
  more than \<open>es\<close> and the boundary of \<open>tf\<close> one more than \<open>ts\<close>, neither \<open>e\<close> nor \<open>t\<close> is an
  edge of the graph any more, and the number of vertices is what it was: \<open>v\<close> is a vertex
  the caller has added before the call.
\<close>

theorem insert_vertex_in_edge_counts:
  assumes ids: "\<forall>x \<in> dom (g_edges g). eid x < g_next_id g"
    and twin: "get_twin g e = Inr t"
    and ends: "source g e = target g t" "target g e = source g t"
    and verts: "v \<in> set (g_vertices g)" "source g e \<in> set (g_vertices g)"
      "target g e \<in> set (g_vertices g)"
    and fcs: "get_face g e = Inr f" "get_face g t = Inr tf" "f \<noteq> tf"
    and bf: "face_edges g f = Some (Inr es)" "e \<in> set es" "\<forall>x \<in> set es. get_face g x = Inr f"
    and btf: "face_edges g tf = Some (Inr ts)" "t \<in> set ts" "\<forall>x \<in> set ts. get_face g x = Inr tf"
  shows "\<exists>g'. insert_vertex_in_edge dp g v e = Some (Inr g')
     \<and> num_edges_face g' f = Some (Inr (length es + 1))
     \<and> num_edges_face g' tf = Some (Inr (length ts + 1))
     \<and> num_vertices g' = num_vertices g
     \<and> g_edges g' e = None \<and> g_edges g' t = None"
proof -
  from twin fcs(1) obtain pe where pe: "g_edges g e = Some pe" "e_twin pe = t" "e_face pe = f"
    by (auto simp: get_twin_def get_face_def props_def bindE_def split: option.splits)
  from fcs(2) obtain pt where pt: "g_edges g t = Some pt" "e_face pt = tf"
    by (auto simp: get_face_def props_def bindE_def split: option.splits)
  from face_edges_boundary [OF bf(1)] face_edges_boundary [OF btf(1)]
  have fv: "f < length (faces g)" "tf < length (faces g)" by simp_all
  from boundary_previous [OF bf(1,2)] obtain p where p: "previous_edge g e = Some (Inr p)" "p \<in> set es"
    by blast
  from boundary_previous [OF btf(1,2)] obtain tp where tp: "previous_edge g t = Some (Inr tp)" "tp \<in> set ts"
    by blast
  from p(2) bf(3) obtain pp where pp: "g_edges g p = Some pp" "e_face pp = f"
    by (auto simp: get_face_def props_def bindE_def split: option.splits)
  from tp(2) btf(3) obtain ptp where ptp: "g_edges g tp = Some ptp" "e_face ptp = tf"
    by (auto simp: get_face_def props_def bindE_def split: option.splits)
  have sep: "\<And>y. y \<in> set es \<Longrightarrow> y \<notin> set ts"
    using bf(3) btf(3) fcs(3) by auto
  then have out: "t \<notin> set es" "tp \<notin> set es" "e \<notin> set ts" "p \<notin> set ts"
    using bf(2) btf(2) p(2) tp(2) by auto
  note fresh = old_edge_not_new [OF ids]
  have live_es: "\<And>y. y \<in> set es \<Longrightarrow> \<exists>q. g_edges g y = Some q"
    using bf(3) by (auto simp: get_face_def props_def bindE_def split: option.splits)
  have live_ts: "\<And>y. y \<in> set ts \<Longrightarrow> \<exists>q. g_edges g y = Some q"
    using btf(3) by (auto simp: get_face_def props_def bindE_def split: option.splits)
  have en: "src_of t = trg_of e" "trg_of t = src_of e"
    using ends by (simp_all add: source_def target_def)
  let ?E1 = "Edge (src_of e) v (g_next_id g)"
  let ?E2 = "Edge v (trg_of e) (g_next_id g + 1)"
  let ?TE1 = "Edge (trg_of e) v (g_next_id g + 2)"
  let ?TE2 = "Edge v (src_of e) (g_next_id g + 3)"
  from insert_vertex_in_edge_result [of g e pe pt v p tp pp ptp dp] ids pe pt pp ptp ends verts fcs fv p(1) tp(1)
  obtain g' where g': "insert_vertex_in_edge dp g v e = Some (Inr g')"
    "g_vertices g' = g_vertices g"
    "faces g' = (faces g)[f := (faces g ! f)\<lparr>f_edge := ?E1\<rparr>, tf := (faces g ! tf)\<lparr>f_edge := ?TE1\<rparr>]"
    "\<And>x. g_edges g' x =
          (if x = ?E1
           then Some (dp\<lparr>e_twin := ?TE2, e_next := ?E2, e_face := f\<rparr>)
           else if x = ?E2
           then Some (dp\<lparr>e_twin := ?TE1, e_next := (if p = e then ?E1 else e_next pe), e_face := f\<rparr>)
           else if x = ?TE1
           then Some (dp\<lparr>e_twin := ?E2, e_next := ?TE2, e_face := tf\<rparr>)
           else if x = ?TE2
           then Some (dp\<lparr>e_twin := ?E1, e_next := (if tp = t then ?TE1 else e_next pt), e_face := tf\<rparr>)
           else if x = e \<or> x = t then None
           else if x = p then Some (pp\<lparr>e_next := ?E1\<rparr>)
           else if x = tp then Some (ptp\<lparr>e_next := ?TE1\<rparr>)
           else g_edges g x)"
    by (auto simp: source_def target_def)
  have old: "\<And>y q a b k. g_edges g y = Some q \<Longrightarrow> y \<noteq> Edge a b (g_next_id g + k)"
    using fresh(1) by simp
  have old0: "\<And>y q a b. g_edges g y = Some q \<Longrightarrow> y \<noteq> Edge a b (g_next_id g)"
    using fresh(1) by simp
  have look: "g_edges g' y =
      (if y = e \<or> y = t then None
       else if y = p then Some (pp\<lparr>e_next := ?E1\<rparr>)
       else if y = tp then Some (ptp\<lparr>e_next := ?TE1\<rparr>)
       else g_edges g y)" if "g_edges g y = Some q" for y q
  proof -
    have "y \<noteq> ?E1" "y \<noteq> ?E2" "y \<noteq> ?TE1" "y \<noteq> ?TE2"
      using fresh(1) [OF that] by simp_all
    then show ?thesis using g'(4) [of y] by simp
  qed
  have d: "p \<noteq> t" "tp \<noteq> e" "p \<noteq> tp" "e \<noteq> t"
    using out p(2) tp(2) bf(2) btf(2) by auto
  (* the side of e *)
  have "\<exists>ys. next_chain g' ?E1 (?E1 # ?E2 # ys) \<and> Suc (length ys) = length es"
  proof (rule side_boundary [OF bf(1,2) pe(1) p(1)])
    show "g_edges g' ?E1 = Some (dp\<lparr>e_twin := ?TE2, e_next := ?E2, e_face := f\<rparr>)"
      using g'(4) [of ?E1] by simp
    show "e_next (dp\<lparr>e_twin := ?TE2, e_next := ?E2, e_face := f\<rparr>) = ?E2" by simp
    show "g_edges g' ?E2 = Some (dp\<lparr>e_twin := ?TE1, e_next := (if p = e then ?E1 else e_next pe), e_face := f\<rparr>)"
      using g'(4) [of ?E2] by simp
    show "e_next (dp\<lparr>e_twin := ?TE1, e_next := (if p = e then ?E1 else e_next pe), e_face := f\<rparr>)
        = (if p = e then ?E1 else e_next pe)" by simp
    show "?E1 \<noteq> ?E2" by simp
    show "?E1 \<notin> set es" using live_es old0 by blast
    show "p \<noteq> e \<longrightarrow> (\<exists>pp. g_edges g p = Some pp \<and> g_edges g' p = Some (pp\<lparr>e_next := ?E1\<rparr>))"
      using look [OF pp(1)] pp(1) d by simp
    show "\<forall>y \<in> set es. y \<noteq> e \<longrightarrow> y \<noteq> p \<longrightarrow> g_edges g' y = g_edges g y"
    proof (intro ballI impI)
      fix y assume y: "y \<in> set es" "y \<noteq> e" "y \<noteq> p"
      then obtain q where "g_edges g y = Some q" using live_es by blast
      from look [OF this] y out show "g_edges g' y = g_edges g y" by auto
    qed
  qed
  then obtain ys where ys: "next_chain g' ?E1 (?E1 # ?E2 # ys)" "Suc (length ys) = length es"
    by blast
  have rep_f: "face_props g' f = Inr ((faces g ! f)\<lparr>f_edge := ?E1\<rparr>)"
    using g'(3) fv fcs(3) by (simp add: face_props_def)
  have nf: "num_edges_face g' f = Some (Inr (length es + 1))"
    using face_edges_loop_chain [OF ys(1), of "[]"] rep_f ys(2)
    by (simp add: num_edges_face_def face_edges_def bindR_simps)
  (* the side of t *)
  have "\<exists>ys. next_chain g' ?TE1 (?TE1 # ?TE2 # ys) \<and> Suc (length ys) = length ts"
  proof (rule side_boundary [OF btf(1,2) pt(1) tp(1)])
    show "g_edges g' ?TE1 = Some (dp\<lparr>e_twin := ?E2, e_next := ?TE2, e_face := tf\<rparr>)"
      using g'(4) [of ?TE1] by simp
    show "e_next (dp\<lparr>e_twin := ?E2, e_next := ?TE2, e_face := tf\<rparr>) = ?TE2" by simp
    show "g_edges g' ?TE2 = Some (dp\<lparr>e_twin := ?E1, e_next := (if tp = t then ?TE1 else e_next pt), e_face := tf\<rparr>)"
      using g'(4) [of ?TE2] by simp
    show "e_next (dp\<lparr>e_twin := ?E1, e_next := (if tp = t then ?TE1 else e_next pt), e_face := tf\<rparr>)
        = (if tp = t then ?TE1 else e_next pt)" by simp
    show "?TE1 \<noteq> ?TE2" by simp
    show "?TE1 \<notin> set ts" using live_ts old by blast
    show "tp \<noteq> t \<longrightarrow> (\<exists>pp. g_edges g tp = Some pp \<and> g_edges g' tp = Some (pp\<lparr>e_next := ?TE1\<rparr>))"
      using look [OF ptp(1)] ptp(1) d by simp
    show "\<forall>y \<in> set ts. y \<noteq> t \<longrightarrow> y \<noteq> tp \<longrightarrow> g_edges g' y = g_edges g y"
    proof (intro ballI impI)
      fix y assume y: "y \<in> set ts" "y \<noteq> t" "y \<noteq> tp"
      then obtain q where "g_edges g y = Some q" using live_ts by blast
      from look [OF this] y out show "g_edges g' y = g_edges g y" by auto
    qed
  qed
  then obtain zs where zs: "next_chain g' ?TE1 (?TE1 # ?TE2 # zs)" "Suc (length zs) = length ts"
    by blast
  have rep_tf: "face_props g' tf = Inr ((faces g ! tf)\<lparr>f_edge := ?TE1\<rparr>)"
    using g'(3) fv fcs(3) by (simp add: face_props_def)
  have ntf: "num_edges_face g' tf = Some (Inr (length ts + 1))"
    using face_edges_loop_chain [OF zs(1), of "[]"] rep_tf zs(2)
    by (simp add: num_edges_face_def face_edges_def bindR_simps)
  have gone: "g_edges g' e = None" "g_edges g' t = None"
    using look [OF pe(1)] look [OF pt(1)] by simp_all
  show ?thesis
    using g'(1,2) nf ntf gone by (simp add: num_vertices_def)
qed


lemma triangle_boundaries:
  "face_edges triangle 0 = Some (Inr [e01, e12, e20])"
  "face_edges triangle 1 = Some (Inr [e10, e02, e21])"
proof -
  have "next_chain triangle e01 [e01, e12, e20]" "next_chain triangle e10 [e10, e02, e21]"
    by (simp_all add: triangle_def edge_defs)
  from face_edges_loop_chain [OF this(1), of "[]"] face_edges_loop_chain [OF this(2), of "[]"]
  show "face_edges triangle 0 = Some (Inr [e01, e12, e20])"
    "face_edges triangle 1 = Some (Inr [e10, e02, e21])"
    by (simp_all add: face_edges_def face_props_def triangle_def)
qed

theorem insert_vertex_in_edge_counts_witness:
  "\<exists>g'. insert_vertex_in_edge blank_edge triangle 3 e01 = Some (Inr g')
     \<and> num_edges_face g' 0 = Some (Inr 4) \<and> num_edges_face g' 1 = Some (Inr 4)
     \<and> num_vertices g' = 4 \<and> g_edges g' e01 = None \<and> g_edges g' e10 = None"
proof -
  have acc: "get_twin triangle e01 = Inr e10" "get_face triangle e01 = Inr 0"
    "get_face triangle e10 = Inr 1"
    by (simp_all add: get_twin_def get_face_def props_def bindE_def triangle_def edge_defs)
  have ends: "source triangle e01 = target triangle e10" "target triangle e01 = source triangle e10"
    by (simp_all add: source_def target_def edge_defs)
  have verts: "3 \<in> set (g_vertices triangle)" "source triangle e01 \<in> set (g_vertices triangle)"
    "target triangle e01 \<in> set (g_vertices triangle)"
    by (simp_all add: source_def target_def edge_defs triangle_def)
  have ne: "(0::nat) \<noteq> 1" by simp
  have on: "e01 \<in> set [e01, e12, e20]" "e10 \<in> set [e10, e02, e21]" by simp_all
  have f0: "\<forall>x \<in> set [e01, e12, e20]. get_face triangle x = Inr 0"
    by (simp add: get_face_def props_def bindE_def triangle_def edge_defs)
  have f1: "\<forall>x \<in> set [e10, e02, e21]. get_face triangle x = Inr 1"
    by (simp add: get_face_def props_def bindE_def triangle_def edge_defs)
  have nv: "num_vertices triangle = 4" by (simp add: num_vertices_def triangle_def)
  from insert_vertex_in_edge_counts [OF triangle_ids acc(1) ends verts acc(2,3) ne
      triangle_boundaries(1) on(1) f0 triangle_boundaries(2) on(2) f1, of blank_edge] nv
  show ?thesis by (simp add: eval_nat_numeral)
qed

text \<open>
  The vertex count does not grow: on the triangle both faces have three boundary edges, the
  call returns, and the graph has four vertices before and after, not one more.
\<close>

theorem insert_vertex_in_edge_vertex_count_counterexample:
  "num_edges_face triangle 0 = Some (Inr 3) \<and> num_edges_face triangle 1 = Some (Inr 3)
   \<and> get_twin triangle e01 = Inr e10
   \<and> (\<exists>g'. insert_vertex_in_edge blank_edge triangle 3 e01 = Some (Inr g')
          \<and> num_vertices triangle = 4 \<and> num_vertices g' = 4
          \<and> num_vertices g' \<noteq> num_vertices triangle + 1)"
proof -
  have n: "num_edges_face triangle 0 = Some (Inr 3)" "num_edges_face triangle 1 = Some (Inr 3)"
    using triangle_boundaries by (simp_all add: num_edges_face_def bindR_simps)
  have tw: "get_twin triangle e01 = Inr e10"
    by (simp add: get_twin_def props_def bindE_def triangle_def edge_defs)
  let ?pe = "\<lparr>e_twin = e10, e_next = e12, e_face = 0, e_k = 1\<rparr>"
  let ?pt = "\<lparr>e_twin = e01, e_next = e02, e_face = 1, e_k = 1\<rparr>"
  let ?pp = "\<lparr>e_twin = e02, e_next = e01, e_face = 0, e_k = 1\<rparr>"
  let ?ptp = "\<lparr>e_twin = e12, e_next = e10, e_face = 1, e_k = 1\<rparr>"
  have e: "g_edges triangle e01 = Some ?pe" by (simp add: triangle_def edge_defs)
  have t: "g_edges triangle (e_twin ?pe) = Some ?pt" by (simp add: triangle_def edge_defs)
  have ends: "src_of e01 = trg_of (e_twin ?pe)" "trg_of e01 = src_of (e_twin ?pe)"
    by (simp_all add: edge_defs)
  have verts: "3 \<in> set (g_vertices triangle)" "src_of e01 \<in> set (g_vertices triangle)"
    "trg_of e01 \<in> set (g_vertices triangle)"
    by (simp_all add: edge_defs triangle_def)
  have fcs: "e_face ?pe < length (faces triangle)" "e_face ?pt < length (faces triangle)"
    "e_face ?pe \<noteq> e_face ?pt"
    by (simp_all add: triangle_def)
  have prev: "previous_edge triangle e01 = Some (Inr e20)"
    "previous_edge triangle (e_twin ?pe) = Some (Inr e21)"
    using triangle_previous by simp_all
  have p: "g_edges triangle e20 = Some ?pp" "e_face ?pp = e_face ?pe"
    by (simp_all add: triangle_def edge_defs)
  have tp: "g_edges triangle e21 = Some ?ptp" "e_face ?ptp = e_face ?pt"
    by (simp_all add: triangle_def edge_defs)
  from insert_vertex_in_edge_result [OF triangle_ids e t ends verts fcs prev p tp, of blank_edge]
  obtain g' where "insert_vertex_in_edge blank_edge triangle 3 e01 = Some (Inr g')"
    "g_vertices g' = g_vertices triangle"
    by blast
  moreover have "num_vertices triangle = 4" by (simp add: num_vertices_def triangle_def)
  ultimately show ?thesis using n tw by (auto simp: num_vertices_def)
qed

end
